theory Spec2Isabelle
  imports Main "HOL-Library.Sublist"
begin

section \<open>JavaScript strings\<close>

text \<open>
  A JavaScript string is a finite sequence of UTF-16 code units. A code unit is modelled
  by its number; the program never does arithmetic on code units, it only compares them,
  so the 16-bit bound plays no role. \<open>js\<close> turns an ASCII literal into such a
  sequence.
\<close>

type_synonym cu = nat

type_synonym jsstring = "cu list"

definition js :: "string \<Rightarrow> jsstring" where
  "js = map of_char"

definition ch :: "char \<Rightarrow> cu" where
  "ch c = of_char c"

text \<open>Code units that cannot be written inside a string literal.\<close>

definition NL :: cu where "NL = 10"

definition BT :: cu where "BT = 96"

definition SQ :: cu where "SQ = 39"

definition DQ :: cu where "DQ = 34"

text \<open>
  WhiteSpace and LineTerminator of ECMA-262: the code units that \<open>String.prototype.trim\<close>
  strips and that the class escape \<open>\s\<close> matches (TAB, LF, VT, FF, CR, SP, NBSP,
  U+1680, U+2000..U+200A, U+2028, U+2029, U+202F, U+205F, U+3000, U+FEFF).
\<close>

definition isWhiteSpace :: "cu \<Rightarrow> bool" where
  "isWhiteSpace c =
     (c = 9 \<or> c = 10 \<or> c = 11 \<or> c = 12 \<or> c = 13 \<or> c = 32 \<or> c = 160 \<or> c = 5760
      \<or> (8192 \<le> c \<and> c \<le> 8202) \<or> c = 8232 \<or> c = 8233 \<or> c = 8239 \<or> c = 8287
      \<or> c = 12288 \<or> c = 65279)"

text \<open>The class escape \<open>\w\<close>: \<open>[A-Za-z0-9_]\<close>.\<close>

definition isWordChar :: "cu \<Rightarrow> bool" where
  "isWordChar c =
     ((97 \<le> c \<and> c \<le> 122) \<or> (65 \<le> c \<and> c \<le> 90) \<or> (48 \<le> c \<and> c \<le> 57) \<or> c = 95)"

definition trim :: "jsstring \<Rightarrow> jsstring" where
  "trim s = rev (dropWhile isWhiteSpace (rev (dropWhile isWhiteSpace s)))"

definition startsWith :: "jsstring \<Rightarrow> jsstring \<Rightarrow> bool" where
  "startsWith s p = (take (length p) s = p)"

fun includesStr :: "jsstring \<Rightarrow> jsstring \<Rightarrow> bool" where
  "includesStr [] n = (n = [])"
| "includesStr (x # xs) n = (startsWith (x # xs) n \<or> includesStr xs n)"

definition substring :: "jsstring \<Rightarrow> nat \<Rightarrow> jsstring" where
  "substring s n = drop n s"

text \<open>\<open>s.split(sep)\<close> for a separator of one code unit, and \<open>lines.join(sep)\<close>.\<close>

fun split :: "jsstring \<Rightarrow> cu \<Rightarrow> jsstring list" where
  "split [] sep = [[]]"
| "split (x # xs) sep =
     (if x = sep then [] # split xs sep
      else (case split xs sep of [] \<Rightarrow> [[x]] | l # ls \<Rightarrow> (x # l) # ls))"

fun join :: "jsstring list \<Rightarrow> jsstring \<Rightarrow> jsstring" where
  "join [] sep = []"
| "join [l] sep = l"
| "join (l # l' # ls) sep = l @ sep @ join (l' # ls) sep"

section \<open>Regular expressions\<close>

text \<open>
  The program works through regular expression literals. They are embedded as syntax
  trees of the fragment of ECMAScript patterns that the program uses: character classes
  (a literal character is a class of one member), the assertions \<open>^\<close> and \<open>$\<close>
  (no regular expression of the program has the multiline flag), sequence, alternation,
  capturing groups, the greedy optional \<open>r?\<close>, and a quantified single-character atom
  \<open>a{min,max}\<close>, greedy or lazy (\<open>+\<close>, \<open>*\<close>, \<open>*?\<close>, \<open>{n,}\<close>, \<open>{n}\<close>, \<open>{m,n}\<close>).
\<close>

datatype citem = CChar cu | CRange cu cu | CSpace | CNotSpace | CWord

type_synonym cls = "bool \<times> citem list"

datatype rx =
    Atom cls
  | Bol
  | Eol
  | Eps
  | Seq rx rx
  | Alt rx rx
  | Grp nat rx
  | Opt rx
  | Rep cls nat "nat option" bool

fun item_has :: "citem \<Rightarrow> cu \<Rightarrow> bool" where
  "item_has (CChar a) c = (c = a)"
| "item_has (CRange lo hi) c = (lo \<le> c \<and> c \<le> hi)"
| "item_has CSpace c = isWhiteSpace c"
| "item_has CNotSpace c = (\<not> isWhiteSpace c)"
| "item_has CWord c = isWordChar c"

definition class_has :: "citem list \<Rightarrow> cu \<Rightarrow> bool" where
  "class_has items c = list_ex (\<lambda>it. item_has it c) items"

text \<open>
  Canonicalize of ECMA-262 for a pattern without the unicode flag maps a code unit to its
  upper case, but never a code unit above 127 to one below 128. Every character written in
  the program's patterns is ASCII and no whitespace character has a case mapping, so only
  the ASCII part of the mapping can be observed; the model keeps the other code units
  unchanged.
\<close>

definition to_upper :: "cu \<Rightarrow> cu" where
  "to_upper c = (if 97 \<le> c \<and> c \<le> 122 then c - 32 else c)"

definition to_lower :: "cu \<Rightarrow> cu" where
  "to_lower c = (if 65 \<le> c \<and> c \<le> 90 then c + 32 else c)"

text \<open>
  CharacterSetMatcher: with the ignoreCase flag, a code unit is found in a class when the
  class has a member with the same canonical form, that is, when it has the upper or the
  lower case of the code unit (lemma \<open>cls_match_canonical\<close> below).
\<close>

fun cls_match :: "bool \<Rightarrow> cls \<Rightarrow> cu \<Rightarrow> bool" where
  "cls_match ic (invert, items) c =
     ((if ic then class_has items (to_upper c) \<or> class_has items (to_lower c)
       else class_has items c) \<noteq> invert)"

declare cls_match.simps [simp del]

text \<open>
  The state of a match: the index reached, the input from that index on, and the captures
  (a capture is the matched substring; unset is \<open>None\<close>, JavaScript's \<open>undefined\<close>).
\<close>

type_synonym captures = "nat \<Rightarrow> jsstring option"

type_synonym mstate = "nat \<times> jsstring \<times> captures"

type_synonym cont = "mstate \<Rightarrow> mstate option"

text \<open>
  RepeatMatcher for a quantified atom. A greedy quantifier tries one more repetition
  before the continuation, a lazy one tries the continuation first.
\<close>

fun rep :: "(cu \<Rightarrow> bool) \<Rightarrow> nat \<Rightarrow> nat option \<Rightarrow> bool \<Rightarrow> cont \<Rightarrow> nat \<Rightarrow> jsstring \<Rightarrow> captures
    \<Rightarrow> mstate option" where
  "rep p mn mx greedy k i [] caps =
     (if mx = Some 0 \<or> mn = 0 then k (i, [], caps) else None)"
| "rep p mn mx greedy k i (x # xs) caps =
     (if mx = Some 0 then k (i, x # xs, caps)
      else if 0 < mn then
        (if p x then rep p (mn - 1) (map_option (\<lambda>n. n - 1) mx) greedy k (i + 1) xs caps
         else None)
      else if greedy then
        (case (if p x then rep p 0 (map_option (\<lambda>n. n - 1) mx) greedy k (i + 1) xs caps
               else None) of
           Some r \<Rightarrow> Some r
         | None \<Rightarrow> k (i, x # xs, caps))
      else
        (case k (i, x # xs, caps) of
           Some r \<Rightarrow> Some r
         | None \<Rightarrow>
             (if p x then rep p 0 (map_option (\<lambda>n. n - 1) mx) greedy k (i + 1) xs caps
              else None)))"

primrec groups :: "rx \<Rightarrow> nat list" where
  "groups (Atom c) = []"
| "groups Bol = []"
| "groups Eol = []"
| "groups Eps = []"
| "groups (Seq a b) = groups a @ groups b"
| "groups (Alt a b) = groups a @ groups b"
| "groups (Grp g r) = g # groups r"
| "groups (Opt r) = groups r"
| "groups (Rep c mn mx greedy) = []"

definition clear :: "nat list \<Rightarrow> captures \<Rightarrow> captures" where
  "clear gs caps = (\<lambda>g. if g \<in> set gs then None else caps g)"

text \<open>
  The backtracking matcher of ECMA-262, in its continuation-passing form: \<open>m ic r k st\<close>
  matches \<open>r\<close> from state \<open>st\<close> and hands every state it can reach to the
  continuation \<open>k\<close>, in the order of the specification, until the continuation
  succeeds. An optional clears the captures of its body on entry and refuses an empty
  iteration.
\<close>

primrec m :: "bool \<Rightarrow> rx \<Rightarrow> cont \<Rightarrow> cont" where
  "m ic (Atom c) k =
     (\<lambda>(i, s, caps). case s of [] \<Rightarrow> None
        | x # xs \<Rightarrow> if cls_match ic c x then k (i + 1, xs, caps) else None)"
| "m ic Bol k = (\<lambda>(i, s, caps). if i = 0 then k (i, s, caps) else None)"
| "m ic Eol k = (\<lambda>(i, s, caps). if s = [] then k (i, s, caps) else None)"
| "m ic Eps k = k"
| "m ic (Seq a b) k = m ic a (m ic b k)"
| "m ic (Alt a b) k =
     (\<lambda>st. case m ic a k st of Some r \<Rightarrow> Some r | None \<Rightarrow> m ic b k st)"
| "m ic (Grp g r) k =
     (\<lambda>(i, s, caps).
        m ic r (\<lambda>(j, t, caps'). k (j, t, caps'(g \<mapsto> take (j - i) s))) (i, s, caps))"
| "m ic (Opt r) k =
     (\<lambda>(i, s, caps).
        case m ic r (\<lambda>(j, t, caps'). if j = i then None else k (j, t, caps'))
               (i, s, clear (groups r) caps) of
          Some res \<Rightarrow> Some res
        | None \<Rightarrow> k (i, s, caps))"
| "m ic (Rep c mn mx greedy) k =
     (\<lambda>(i, s, caps). rep (cls_match ic c) mn mx greedy k i s caps)"

text \<open>
  RegExpBuiltinExec: the first index from \<open>lastIndex\<close> on at which the pattern matches.
  The second argument is the input from \<open>lastIndex\<close> on. The result is the index of the
  match and the final state (end index, rest of the input, captures).
\<close>

fun search :: "bool \<Rightarrow> rx \<Rightarrow> nat \<Rightarrow> jsstring \<Rightarrow> (nat \<times> mstate) option" where
  "search ic r i [] =
     (case m ic r Some (i, [], Map.empty) of Some st \<Rightarrow> Some (i, st) | None \<Rightarrow> None)"
| "search ic r i (x # xs) =
     (case m ic r Some (i, x # xs, Map.empty) of
        Some st \<Rightarrow> Some (i, st)
      | None \<Rightarrow> search ic r (i + 1) xs)"

text \<open>\<open>re.test(s)\<close> for a regular expression whose \<open>lastIndex\<close> is 0.\<close>

definition test :: "bool \<Rightarrow> rx \<Rightarrow> jsstring \<Rightarrow> bool" where
  "test ic r s = (search ic r 0 s \<noteq> None)"

text \<open>Helpers to write patterns: a literal character, a literal string, lists.\<close>

definition lit :: "cu \<Rightarrow> rx" where
  "lit c = Atom (False, [CChar c])"

fun str :: "jsstring \<Rightarrow> rx" where
  "str [] = Eps"
| "str (c # cs) = Seq (lit c) (str cs)"

fun seq :: "rx list \<Rightarrow> rx" where
  "seq [] = Eps"
| "seq (r # rs) = Seq r (seq rs)"

fun alts :: "rx list \<Rightarrow> rx" where
  "alts [] = Eps"
| "alts [r] = r"
| "alts (r # r' # rs) = Alt r (alts (r' # rs))"

section \<open>What the matcher accepts\<close>

text \<open>
  \<open>acc ic r st st'\<close> says that \<open>r\<close> can take the match from state \<open>st\<close> to state
  \<open>st'\<close>. The backtracking matcher succeeds exactly when an accepted state satisfies the
  continuation (\<open>m_sound\<close>, \<open>m_complete\<close>). \<open>cnt_ok mn mx n\<close> says that a quantifier
  with bounds \<open>mn\<close> and \<open>mx\<close> may stop after \<open>n\<close> repetitions.
\<close>

fun cnt_ok :: "nat \<Rightarrow> nat option \<Rightarrow> nat \<Rightarrow> bool" where
  "cnt_ok mn None n = (mn \<le> n)"
| "cnt_ok mn (Some M) n = (n \<le> M \<and> (mn \<le> n \<or> n = M))"

primrec acc :: "bool \<Rightarrow> rx \<Rightarrow> mstate \<Rightarrow> mstate \<Rightarrow> bool" where
  "acc ic (Atom c) st st' =
     (case st of (i, s, caps) \<Rightarrow> \<exists>x xs. s = x # xs \<and> cls_match ic c x \<and> st' = (i + 1, xs, caps))"
| "acc ic Bol st st' = (fst st = 0 \<and> st' = st)"
| "acc ic Eol st st' = (fst (snd st) = [] \<and> st' = st)"
| "acc ic Eps st st' = (st' = st)"
| "acc ic (Seq a b) st st' = (\<exists>st''. acc ic a st st'' \<and> acc ic b st'' st')"
| "acc ic (Alt a b) st st' = (acc ic a st st' \<or> acc ic b st st')"
| "acc ic (Grp g r) st st' =
     (case st of (i, s, caps) \<Rightarrow>
        \<exists>j t caps'. acc ic r (i, s, caps) (j, t, caps') \<and> st' = (j, t, caps'(g \<mapsto> take (j - i) s)))"
| "acc ic (Opt r) st st' =
     (case st of (i, s, caps) \<Rightarrow>
        st' = st \<or> (\<exists>j t caps'. acc ic r (i, s, clear (groups r) caps) (j, t, caps') \<and> j \<noteq> i
                      \<and> st' = (j, t, caps')))"
| "acc ic (Rep c mn mx greedy) st st' =
     (case st of (i, s, caps) \<Rightarrow>
        \<exists>n. n \<le> length s \<and> (\<forall>x \<in> set (take n s). cls_match ic c x) \<and> cnt_ok mn mx n
             \<and> st' = (i + n, drop n s, caps))"

lemma cnt_ok_step:
  "mx \<noteq> Some 0 \<Longrightarrow> cnt_ok (mn - 1) (map_option (\<lambda>n. n - 1) mx) n \<Longrightarrow> cnt_ok mn mx (Suc n)"
  by (cases mx) auto

lemma cnt_ok_unstep:
  "mx \<noteq> Some 0 \<Longrightarrow> cnt_ok mn mx (Suc n) \<Longrightarrow> cnt_ok (mn - 1) (map_option (\<lambda>n. n - 1) mx) n"
  by (cases mx) auto

lemma orelse_eq_Some:
  "(case a of Some r \<Rightarrow> Some r | None \<Rightarrow> b) = Some res \<Longrightarrow> a = Some res \<or> b = Some res"
  by (cases a) auto

lemma rep_sound:
  "rep p mn mx g k i s caps = Some res \<Longrightarrow>
   \<exists>n. n \<le> length s \<and> (\<forall>x \<in> set (take n s). p x) \<and> cnt_ok mn mx n
       \<and> k (i + n, drop n s, caps) = Some res"
proof (induction s arbitrary: mn mx i)
  case Nil
  then show ?case by (cases mx) (auto split: if_splits)
next
  case (Cons x xs)
  let ?more = "rep p (mn - 1) (map_option (\<lambda>n. n - 1) mx) g k (Suc i) xs caps"
  have stop: ?case if "k (i, x # xs, caps) = Some res" "mx = Some 0 \<or> mn = 0"
  proof -
    have "cnt_ok mn mx 0" using that(2) by (cases mx) auto
    then show ?thesis using that(1) by (intro exI[of _ 0]) simp
  qed
  have more: ?case if "p x" "?more = Some res" "mx \<noteq> Some 0"
  proof -
    from Cons.IH[OF that(2)] obtain n where n: "n \<le> length xs" "\<forall>x \<in> set (take n xs). p x"
      "cnt_ok (mn - 1) (map_option (\<lambda>n. n - 1) mx) n" "k (Suc i + n, drop n xs, caps) = Some res"
      by blast
    show ?thesis
      using n that(1) cnt_ok_step[OF that(3) n(3)] by (intro exI[of _ "Suc n"]) simp
  qed
  show ?case
  proof (cases "mx = Some 0")
    case True
    with Cons.prems show ?thesis by (intro stop) simp_all
  next
    case nz: False
    show ?thesis
    proof (cases "0 < mn")
      case True
      with nz Cons.prems have "p x \<and> ?more = Some res" by (simp split: if_splits)
      then show ?thesis using more nz by blast
    next
      case False
      then have mn0: "mn = 0" by simp
      from Cons.prems nz mn0
      have "(if p x then ?more else None) = Some res \<or> k (i, x # xs, caps) = Some res"
        by (cases g) (auto dest: orelse_eq_Some)
      then show ?thesis using more nz stop mn0 by (auto split: if_splits)
    qed
  qed
qed

lemma orelse_not_None:
  "a \<noteq> None \<or> b \<noteq> None \<Longrightarrow> (case a of Some r \<Rightarrow> Some r | None \<Rightarrow> b) \<noteq> None"
  by (cases a) auto

lemma rep_complete:
  "n \<le> length s \<Longrightarrow> \<forall>x \<in> set (take n s). p x \<Longrightarrow> cnt_ok mn mx n \<Longrightarrow>
   k (i + n, drop n s, caps) \<noteq> None \<Longrightarrow> rep p mn mx g k i s caps \<noteq> None"
proof (induction s arbitrary: mn mx i n)
  case Nil
  then show ?case by (cases mx) auto
next
  case (Cons x xs)
  let ?more = "rep p (mn - 1) (map_option (\<lambda>n. n - 1) mx) g k (Suc i) xs caps"
  show ?case
  proof (cases n)
    case 0
    with Cons.prems have kk: "k (i, x # xs, caps) \<noteq> None" and c0: "mx = Some 0 \<or> mn = 0"
      by (cases mx; auto)+
    show ?thesis
    proof (cases "mx = Some 0")
      case True
      then show ?thesis using kk by simp
    next
      case False
      with c0 have mn0: "mn = 0" by simp
      show ?thesis using False mn0 kk
        by (cases g) (auto simp del: not_None_eq split_paired_Ex intro!: orelse_not_None)
    qed
  next
    case (Suc n')
    with Cons.prems have px: "p x" and rest: "\<forall>x \<in> set (take n' xs). p x" and len: "n' \<le> length xs"
      and kk: "k (Suc i + n', drop n' xs, caps) \<noteq> None"
      by auto
    have nz: "mx \<noteq> Some 0" using Cons.prems(3) Suc by (cases mx) auto
    from cnt_ok_unstep[OF nz] Cons.prems(3) Suc
    have "cnt_ok (mn - 1) (map_option (\<lambda>n. n - 1) mx) n'" by simp
    from Cons.IH[OF len rest this kk]
    have r: "?more \<noteq> None" .
    show ?thesis
    proof (cases "0 < mn")
      case True
      then show ?thesis using px nz r by simp
    next
      case False
      then show ?thesis using px nz r
        by (cases g) (auto simp del: not_None_eq split_paired_Ex intro!: orelse_not_None)
    qed
  qed
qed

lemma m_sound:
  "m ic r k st = Some res \<Longrightarrow> \<exists>st'. acc ic r st st' \<and> k st' = Some res"
proof (induction r arbitrary: k st res)
  case (Atom c)
  then show ?case by (cases st) (auto split: list.splits if_splits)
next
  case Bol
  then show ?case by (cases st) (auto split: if_splits)
next
  case Eol
  then show ?case by (cases st) (auto split: if_splits)
next
  case Eps
  then show ?case by auto
next
  case (Seq a b)
  from Seq.prems have "m ic a (m ic b k) st = Some res" by simp
  from Seq.IH(1)[OF this] obtain st1 where 1: "acc ic a st st1" "m ic b k st1 = Some res" by blast
  from Seq.IH(2)[OF 1(2)] obtain st2 where 2: "acc ic b st1 st2" "k st2 = Some res" by blast
  show ?case using 1(1) 2 unfolding acc.simps by blast
next
  case (Alt a b)
  from Alt.prems have "m ic a k st = Some res \<or> m ic b k st = Some res"
    by (auto dest: orelse_eq_Some)
  then show ?case
  proof
    assume "m ic a k st = Some res"
    from Alt.IH(1)[OF this] obtain st' where "acc ic a st st'" "k st' = Some res" by blast
    then have "acc ic (Alt a b) st st' \<and> k st' = Some res" by simp
    then show ?thesis by (rule exI)
  next
    assume "m ic b k st = Some res"
    from Alt.IH(2)[OF this] obtain st' where "acc ic b st st'" "k st' = Some res" by blast
    then have "acc ic (Alt a b) st st' \<and> k st' = Some res" by simp
    then show ?thesis by (rule exI)
  qed
next
  case (Grp g r)
  obtain i s caps where st: "st = (i, s, caps)" by (cases st)
  let ?k = "\<lambda>(j, t, caps'). k (j, t, caps'(g \<mapsto> take (j - i) s))"
  from Grp.prems st have "m ic r ?k (i, s, caps) = Some res" by simp
  from Grp.IH[OF this] obtain st' where 1: "acc ic r (i, s, caps) st'" "?k st' = Some res" by blast
  obtain j t caps' where st': "st' = (j, t, caps')" by (cases st')
  show ?case using 1 st st' by auto
next
  case (Opt r)
  obtain i s caps where st: "st = (i, s, caps)" by (cases st)
  let ?k = "\<lambda>(j, t, caps'). if j = i then None else k (j, t, caps')"
  from Opt.prems st
  have "m ic r ?k (i, s, clear (groups r) caps) = Some res \<or> k (i, s, caps) = Some res"
    by (auto dest: orelse_eq_Some)
  then show ?case
  proof
    assume "m ic r ?k (i, s, clear (groups r) caps) = Some res"
    from Opt.IH[OF this] obtain st' where 1: "acc ic r (i, s, clear (groups r) caps) st'"
      "?k st' = Some res" by blast
    obtain j t caps' where st': "st' = (j, t, caps')" by (cases st')
    show ?thesis using 1 st st' by (auto split: if_splits)
  next
    assume "k (i, s, caps) = Some res"
    then show ?thesis using st by auto
  qed
next
  case (Rep c mn mx g)
  obtain i s caps where st: "st = (i, s, caps)" by (cases st)
  from Rep st have "rep (cls_match ic c) mn mx g k i s caps = Some res" by simp
  from rep_sound[OF this] show ?case using st by auto
qed

lemma m_complete:
  "acc ic r st st' \<Longrightarrow> k st' \<noteq> None \<Longrightarrow> m ic r k st \<noteq> None"
proof (induction r arbitrary: k st st')
  case (Atom c)
  then show ?case by (cases st) auto
next
  case Bol
  then show ?case by (cases st) auto
next
  case Eol
  then show ?case by (cases st) auto
next
  case Eps
  then show ?case by auto
next
  case (Seq a b)
  from Seq.prems obtain st1 where 1: "acc ic a st st1" "acc ic b st1 st'" by auto
  have "m ic b k st1 \<noteq> None" using Seq.IH(2) 1(2) Seq.prems(2) by blast
  then have "m ic a (m ic b k) st \<noteq> None" using Seq.IH(1) 1(1) by blast
  then show ?case by simp
next
  case (Alt a b)
  from Alt.prems have "acc ic a st st' \<or> acc ic b st st'" by simp
  then have "m ic a k st \<noteq> None \<or> m ic b k st \<noteq> None"
    using Alt.IH Alt.prems(2) by blast
  then show ?case by (simp add: orelse_not_None)
next
  case (Grp g r)
  obtain i s caps where st: "st = (i, s, caps)" by (cases st)
  let ?k = "\<lambda>(j, t, caps'). k (j, t, caps'(g \<mapsto> take (j - i) s))"
  from Grp.prems st obtain j t caps' where 1: "acc ic r (i, s, caps) (j, t, caps')"
    "st' = (j, t, caps'(g \<mapsto> take (j - i) s))" by auto
  have "?k (j, t, caps') \<noteq> None" using Grp.prems(2) 1(2) by simp
  from Grp.IH[where k = ?k, OF 1(1) this] show ?case using st by simp
next
  case (Opt r)
  obtain i s caps where st: "st = (i, s, caps)" by (cases st)
  let ?k = "\<lambda>(j, t, caps'). if j = i then None else k (j, t, caps')"
  from Opt.prems st consider "st' = (i, s, caps)"
    | j t caps' where "acc ic r (i, s, clear (groups r) caps) (j, t, caps')" "j \<noteq> i" "st' = (j, t, caps')"
    by auto
  then show ?case
  proof cases
    case 1
    then show ?thesis using Opt.prems(2) st by (simp add: orelse_not_None)
  next
    case 2
    have "?k (j, t, caps') \<noteq> None" using Opt.prems(2) 2 by simp
    from Opt.IH[where k = ?k, OF 2(1) this] show ?thesis using st by (simp add: orelse_not_None)
  qed
next
  case (Rep c mn mx g)
  obtain i s caps where st: "st = (i, s, caps)" by (cases st)
  from Rep st obtain n where n: "n \<le> length s" "\<forall>x \<in> set (take n s). cls_match ic c x"
    "cnt_ok mn mx n" "st' = (i + n, drop n s, caps)" by auto
  from rep_complete[OF n(1,2,3), of k i caps g] Rep.prems(2) n(4) show ?case using st by simp
qed

lemma acc_shape:
  "acc ic r (i, s, caps) (j, t, caps') \<Longrightarrow> \<exists>u. s = u @ t \<and> j = i + length u"
proof (induction r arbitrary: i s caps j t caps')
  case (Atom c)
  then obtain x where "s = x # t" "j = i + 1" by auto
  then show ?case by (intro exI[of _ "[x]"]) simp
next
  case Bol
  then show ?case by simp
next
  case Eol
  then show ?case by simp
next
  case Eps
  then show ?case by simp
next
  case (Seq a b)
  from Seq.prems obtain j1 t1 c1 where 1: "acc ic a (i, s, caps) (j1, t1, c1)"
    "acc ic b (j1, t1, c1) (j, t, caps')" by auto
  from Seq.IH(1)[OF 1(1)] obtain u where u: "s = u @ t1" "j1 = i + length u" by blast
  from Seq.IH(2)[OF 1(2)] obtain v where v: "t1 = v @ t" "j = j1 + length v" by blast
  show ?case using u v by (intro exI[of _ "u @ v"]) simp
next
  case (Alt a b)
  from Alt.prems have "acc ic a (i, s, caps) (j, t, caps') \<or> acc ic b (i, s, caps) (j, t, caps')"
    by simp
  then show ?case using Alt.IH by blast
next
  case (Grp g r)
  from Grp.prems obtain c' where "acc ic r (i, s, caps) (j, t, c')" by auto
  then show ?case using Grp.IH by blast
next
  case (Opt r)
  from Opt.prems have "(j = i \<and> t = s) \<or> (\<exists>c0. acc ic r (i, s, c0) (j, t, caps'))"
    by auto
  then show ?case using Opt.IH by (elim disjE) (simp, blast)
next
  case (Rep c mn mx g)
  then obtain n where "n \<le> length s" "j = i + n" "t = drop n s" by auto
  then show ?case by (intro exI[of _ "take n s"]) simp
qed

lemma search_sound:
  "search ic r i s = Some (p, st') \<Longrightarrow>
   \<exists>u v. s = u @ v \<and> p = i + length u \<and> acc ic r (p, v, Map.empty) st'"
proof (induction s arbitrary: i)
  case Nil
  then have "m ic r Some (i, [], Map.empty) = Some st'" and "p = i"
    by (auto split: option.splits)
  from m_sound[OF this(1)] \<open>p = i\<close> show ?case by auto
next
  case (Cons x xs)
  show ?case
  proof (cases "m ic r Some (i, x # xs, Map.empty)")
    case None
    with Cons.prems have "search ic r (i + 1) xs = Some (p, st')" by simp
    from Cons.IH[OF this] obtain u v where uv: "xs = u @ v" "p = i + 1 + length u"
      "acc ic r (p, v, Map.empty) st'" by blast
    show ?thesis
      by (rule exI[of _ "x # u"], rule exI[of _ v]) (use uv in simp)
  next
    case (Some st)
    with Cons.prems have eq: "p = i" "st = st'" by auto
    from m_sound[OF Some] eq have "acc ic r (p, x # xs, Map.empty) st'" by auto
    then show ?thesis using eq
      by (intro exI[of _ "[]"] exI[of _ "x # xs"]) simp
  qed
qed

lemma search_complete:
  "acc ic r (i + length u, v, Map.empty) st' \<Longrightarrow> search ic r i (u @ v) \<noteq> None"
proof (induction u arbitrary: i)
  case Nil
  then have "m ic r Some (i, v, Map.empty) \<noteq> None"
    using m_complete[of ic r "(i, v, Map.empty)" st' Some] by simp
  then show ?case by (cases v) (auto split: option.splits)
next
  case (Cons x u)
  then have "acc ic r (i + 1 + length u, v, Map.empty) st'" by simp
  from Cons.IH[OF this] show ?case by (auto split: option.splits)
qed

lemma test_iff:
  "test ic r s \<longleftrightarrow> (\<exists>u v st'. s = u @ v \<and> acc ic r (length u, v, Map.empty) st')"
proof
  assume "test ic r s"
  then obtain p st' where "search ic r 0 s = Some (p, st')"
    by (auto simp: test_def)
  from search_sound[OF this] obtain u v where "s = u @ v" "p = 0 + length u"
    "acc ic r (p, v, Map.empty) st'" by blast
  then have "s = u @ v \<and> acc ic r (length u, v, Map.empty) st'" by simp
  then show "\<exists>u v st'. s = u @ v \<and> acc ic r (length u, v, Map.empty) st'" by blast
next
  assume "\<exists>u v st'. s = u @ v \<and> acc ic r (length u, v, Map.empty) st'"
  then obtain u v st' where "s = u @ v" "acc ic r (0 + length u, v, Map.empty) st'" by auto
  then show "test ic r s" using search_complete[of ic r 0 u v st'] by (simp add: test_def)
qed

lemma search_shape:
  assumes "search ic r i s = Some (p, e, t, caps)"
  shows "\<exists>u w. s = u @ w @ t \<and> p = i + length u \<and> e = p + length w"
proof -
  from search_sound[OF assms] obtain u v where uv: "s = u @ v" "p = i + length u"
    "acc ic r (p, v, Map.empty) (e, t, caps)" by blast
  from acc_shape[OF uv(3)] obtain w where "v = w @ t" "e = p + length w" by blast
  with uv show ?thesis by auto
qed

lemma cls_match_lit:
  "cls_match ic (False, [CChar a]) x \<longleftrightarrow> (if ic then to_lower x = to_lower a else x = a)"
  by (auto simp: cls_match.simps class_has_def to_upper_def to_lower_def)

lemma cls_match_canonical:
  "cls_match ic (invert, items) c \<longleftrightarrow>
     ((\<exists>a. class_has items a \<and> (if ic then to_upper a = to_upper c else a = c)) \<noteq> invert)"
proof -
  have "(\<exists>a. class_has items a \<and> to_upper a = to_upper c) \<longleftrightarrow>
        class_has items (to_upper c) \<or> class_has items (to_lower c)"
  proof
    assume "\<exists>a. class_has items a \<and> to_upper a = to_upper c"
    then obtain a where a: "class_has items a" "to_upper a = to_upper c" by blast
    then have "a = to_upper c \<or> a = to_lower c"
      by (auto simp: to_upper_def to_lower_def split: if_splits)
    with a(1) show "class_has items (to_upper c) \<or> class_has items (to_lower c)" by auto
  next
    assume "class_has items (to_upper c) \<or> class_has items (to_lower c)"
    moreover have "to_upper (to_upper c) = to_upper c" "to_upper (to_lower c) = to_upper c"
      by (auto simp: to_upper_def to_lower_def)
    ultimately show "\<exists>a. class_has items a \<and> to_upper a = to_upper c" by blast
  qed
  then show ?thesis by (auto simp: cls_match.simps)
qed

lemma acc_lit:
  "acc ic (lit a) (i, s, caps) st' \<longleftrightarrow>
     (\<exists>x t. s = x # t \<and> (if ic then to_lower x = to_lower a else x = a) \<and> st' = (i + 1, t, caps))"
  unfolding lit_def acc.simps cls_match_lit by simp

lemma acc_str:
  "acc ic (str w) (i, s, caps) st' \<longleftrightarrow>
     (\<exists>u t. s = u @ t \<and> length u = length w
        \<and> (if ic then map to_lower u = map to_lower w else u = w)
        \<and> st' = (i + length w, t, caps))"
proof (induction w arbitrary: i s)
  case Nil
  then show ?case by auto
next
  case (Cons a w)
  show ?case
  proof
    assume "acc ic (str (a # w)) (i, s, caps) st'"
    then obtain x t0 where x: "s = x # t0" "if ic then to_lower x = to_lower a else x = a"
      and rest: "acc ic (str w) (i + 1, t0, caps) st'"
      by (auto simp: acc_lit)
    from rest[unfolded Cons.IH] obtain u t where u: "t0 = u @ t" "length u = length w"
      "if ic then map to_lower u = map to_lower w else u = w" "st' = (i + 1 + length w, t, caps)"
      by blast
    show "\<exists>u t. s = u @ t \<and> length u = length (a # w)
        \<and> (if ic then map to_lower u = map to_lower (a # w) else u = a # w)
        \<and> st' = (i + length (a # w), t, caps)"
      by (rule exI[of _ "x # u"], rule exI[of _ t]) (use x u in \<open>auto split: if_splits\<close>)
  next
    assume "\<exists>u t. s = u @ t \<and> length u = length (a # w)
        \<and> (if ic then map to_lower u = map to_lower (a # w) else u = a # w)
        \<and> st' = (i + length (a # w), t, caps)"
    then obtain u t where u: "s = u @ t" "length u = length (a # w)"
      "if ic then map to_lower u = map to_lower (a # w) else u = a # w"
      "st' = (i + length (a # w), t, caps)" by blast
    then obtain x u' where xu: "u = x # u'" by (cases u) auto
    have "acc ic (str w) (i + 1, u' @ t, caps) st'"
      unfolding Cons.IH using u xu by (auto split: if_splits)
    moreover have "acc ic (lit a) (i, s, caps) (i + 1, u' @ t, caps)"
      unfolding acc_lit using u xu by (auto split: if_splits)
    ultimately show "acc ic (str (a # w)) (i, s, caps) st'" by auto
  qed
qed

lemma includesStr_iff: "includesStr s n \<longleftrightarrow> (\<exists>a b. s = a @ n @ b)"
proof (induction s)
  case Nil
  then show ?case by auto
next
  case (Cons x xs)
  have sw: "startsWith (x # xs) n \<longleftrightarrow> (\<exists>b. x # xs = n @ b)"
    unfolding startsWith_def
    by (metis append_eq_conv_conj append_take_drop_id)
  show ?case
  proof
    assume "includesStr (x # xs) n"
    then consider "startsWith (x # xs) n" | "includesStr xs n" by auto
    then show "\<exists>a b. x # xs = a @ n @ b"
    proof cases
      case 1
      then obtain b where "x # xs = n @ b" using sw by blast
      then show ?thesis by (intro exI[of _ "[]"] exI[of _ b]) simp
    next
      case 2
      then obtain a b where "xs = a @ n @ b" using Cons.IH by blast
      then show ?thesis by (intro exI[of _ "x # a"] exI[of _ b]) simp
    qed
  next
    assume "\<exists>a b. x # xs = a @ n @ b"
    then obtain a b where ab: "x # xs = a @ n @ b" by blast
    show "includesStr (x # xs) n"
    proof (cases a)
      case Nil
      with ab have "startsWith (x # xs) n" using sw by auto
      then show ?thesis by simp
    next
      case (Cons y a')
      with ab have "xs = a' @ n @ b" by simp
      then have "includesStr xs n" using Cons.IH by blast
      then show ?thesis by simp
    qed
  qed
qed

section \<open>The code parser\<close>

datatype Action = Create | Update | Delete

record FileChange =
  path :: jsstring
  action :: Action
  content :: "jsstring option"

subsection \<open>isValidFilePath\<close>

text \<open>\<^verbatim>\<open>/\.[a-z0-9]+$/i\<close>\<close>

definition hasExtensionRegex :: rx where
  "hasExtensionRegex =
     seq [lit (ch CHR ''.''),
          Rep (False, [CRange (ch CHR ''a'') (ch CHR ''z''), CRange (ch CHR ''0'') (ch CHR ''9'')])
            1 None True,
          Eol]"

text \<open>\<^verbatim>\<open>/^(\.gitignore|\.env|\.env\.local|Dockerfile|Makefile|README)$/i\<close>\<close>

definition configFileNames :: "jsstring list" where
  "configFileNames =
     [js ''.gitignore'', js ''.env'', js ''.env.local'', js ''Dockerfile'', js ''Makefile'',
      js ''README'']"

definition isConfigFileRegex :: rx where
  "isConfigFileRegex = seq [Bol, Grp 1 (alts (map str configFileNames)), Eol]"

text \<open>\<^verbatim>\<open>/^[A-Z]:/i\<close>\<close>

definition driveRegex :: rx where
  "driveRegex = seq [Bol, Atom (False, [CRange (ch CHR ''A'') (ch CHR ''Z'')]), lit (ch CHR '':'')]"

text \<open>\<^verbatim>\<open>/^[\w\-./]+$/\<close>\<close>

definition allowedCharsRegex :: rx where
  "allowedCharsRegex =
     seq [Bol,
          Rep (False, [CWord, CChar (ch CHR ''-''), CChar (ch CHR ''.''), CChar (ch CHR ''/'')])
            1 None True,
          Eol]"

definition isValidFilePath :: "jsstring \<Rightarrow> bool" where
  "isValidFilePath p =
     (let hasExtension = test True hasExtensionRegex p;
          isConfigFile = test True isConfigFileRegex p
      in if \<not> hasExtension \<and> \<not> isConfigFile then False
         else if includesStr p (js ''..'') then False
         else if startsWith p (js ''/'') \<or> test True driveRegex p then False
         else if length p > 200 then False
         else if \<not> test False allowedCharsRegex p then False
         else True)"

subsection \<open>parseFileChanges\<close>

text \<open>The fence of a code block: three backticks.\<close>

definition fence :: jsstring where
  "fence = [BT, BT, BT]"

text \<open>\<^verbatim>\<open>/```(?:filepath:)?([^\n`]+)\n([\s\S]*?)```/g\<close>\<close>

definition codeBlockRegex :: rx where
  "codeBlockRegex =
     seq [str fence,
          Opt (str (js ''filepath:'')),
          Grp 1 (Rep (True, [CChar NL, CChar BT]) 1 None True),
          lit NL,
          Grp 2 (Rep (False, [CSpace, CNotSpace]) 0 None False),
          str fence]"

text \<open>\<^verbatim>\<open>/^(typescript|javascript|tsx|jsx|ts|js|json|html|css|python|go|rust)$/i\<close>\<close>

definition languageNames :: "jsstring list" where
  "languageNames =
     [js ''typescript'', js ''javascript'', js ''tsx'', js ''jsx'', js ''ts'', js ''js'',
      js ''json'', js ''html'', js ''css'', js ''python'', js ''go'', js ''rust'']"

definition languageRegex :: rx where
  "languageRegex = seq [Bol, Grp 1 (alts (map str languageNames)), Eol]"

text \<open>\<^verbatim>\<open>/```(\w+)\n(\/\/\s*)?([^\n]+\.[a-z]+)\n([\s\S]*?)```/g\<close>\<close>

definition simpleBlockRegex :: rx where
  "simpleBlockRegex =
     seq [str fence,
          Grp 1 (Rep (False, [CWord]) 1 None True),
          lit NL,
          Opt (Grp 2 (Seq (str (js ''//'')) (Rep (False, [CSpace]) 0 None True))),
          Grp 3 (seq [Rep (True, [CChar NL]) 1 None True,
                      lit (ch CHR ''.''),
                      Rep (False, [CRange (ch CHR ''a'') (ch CHR ''z'')]) 1 None True]),
          lit NL,
          Grp 4 (Rep (False, [CSpace, CNotSpace]) 0 None False),
          str fence]"

text \<open>
  \<open>s.replace(re, repl)\<close> for a regular expression without the global flag and a
  replacement without \<open>$\<close> patterns: the first match is replaced.
\<close>

definition replaceFirst :: "bool \<Rightarrow> rx \<Rightarrow> jsstring \<Rightarrow> jsstring \<Rightarrow> jsstring" where
  "replaceFirst ic r s repl =
     (case search ic r 0 s of None \<Rightarrow> s | Some (p, e, t, caps) \<Rightarrow> take p s @ repl @ t)"

text \<open>
  Calling a method on \<open>undefined\<close> (a capture that did not take part in the match)
  raises a TypeError; it is the only way the parser could raise.
\<close>

datatype error = TypeError

text \<open>
  The body of the first loop: \<open>caps\<close> are the captures of the match (\<open>match[1]\<close>,
  \<open>match[2]\<close>), \<open>files\<close> the list so far. \<open>continue\<close> returns the list unchanged.
\<close>

definition codeBlockStep :: "captures \<Rightarrow> FileChange list \<Rightarrow> error + FileChange list" where
  "codeBlockStep caps files =
     (case caps 1 of
        None \<Rightarrow> Inl TypeError
      | Some m1 \<Rightarrow>
          (let pathPart = trim m1; content = caps 2 in
           if pathPart = [] \<or> includesStr pathPart (js '' '') \<and> \<not> startsWith pathPart (js ''filepath:'')
           then Inr files
           else
             (let filePath = (if startsWith pathPart (js ''filepath:'')
                              then trim (substring pathPart 9) else pathPart);
                  filePath = trim (replaceFirst True languageRegex filePath [])
              in if filePath = [] \<or> \<not> includesStr filePath (js ''.'') \<and> \<not> includesStr filePath (js ''/'')
                 then Inr files
                 else if isValidFilePath filePath
                 then (case content of
                         None \<Rightarrow> Inl TypeError
                       | Some c \<Rightarrow>
                           Inr (files @ [\<lparr>path = filePath, action = Create, content = Some (trim c)\<rparr>]))
                 else Inr files)))"

text \<open>
  \<open>while ((match = codeBlockRegex.exec(response)) !== null)\<close>: the regular expression is
  global, so each \<open>exec\<close> starts at \<open>lastIndex\<close>, the end of the match before. The
  second argument is the response from \<open>lastIndex\<close> on. JavaScript would loop for ever on
  a match that is empty; \<open>None\<close> stands for a loop that does not return.
\<close>

partial_function (option) codeBlockLoop ::
    "nat \<Rightarrow> jsstring \<Rightarrow> FileChange list \<Rightarrow> (error + FileChange list) option" where
  "codeBlockLoop lastIndex s files =
     (case search False codeBlockRegex lastIndex s of
        None \<Rightarrow> Some (Inr files)
      | Some (p, e, t, caps) \<Rightarrow>
          (case codeBlockStep caps files of
             Inl err \<Rightarrow> Some (Inl err)
           | Inr files' \<Rightarrow> codeBlockLoop e t files'))"

declare codeBlockLoop.simps [code]

text \<open>The body of the second loop (\<open>match[3]\<close>, \<open>match[4]\<close>).\<close>

definition simpleBlockStep :: "captures \<Rightarrow> FileChange list \<Rightarrow> error + FileChange list" where
  "simpleBlockStep caps files =
     (case caps 3 of
        None \<Rightarrow> Inl TypeError
      | Some m3 \<Rightarrow>
          (let possiblePath = trim m3; content = caps 4 in
           if list_ex (\<lambda>f. path f = possiblePath) files then Inr files
           else if isValidFilePath possiblePath
           then (case content of
                   None \<Rightarrow> Inl TypeError
                 | Some c \<Rightarrow>
                     Inr (files @ [\<lparr>path = possiblePath, action = Create, content = Some (trim c)\<rparr>]))
           else Inr files))"

partial_function (option) simpleBlockLoop ::
    "nat \<Rightarrow> jsstring \<Rightarrow> FileChange list \<Rightarrow> (error + FileChange list) option" where
  "simpleBlockLoop lastIndex s files =
     (case search False simpleBlockRegex lastIndex s of
        None \<Rightarrow> Some (Inr files)
      | Some (p, e, t, caps) \<Rightarrow>
          (case simpleBlockStep caps files of
             Inl err \<Rightarrow> Some (Inl err)
           | Inr files' \<Rightarrow> simpleBlockLoop e t files'))"

declare simpleBlockLoop.simps [code]

definition parseFileChanges :: "jsstring \<Rightarrow> (error + FileChange list) option" where
  "parseFileChanges response =
     (case codeBlockLoop 0 response [] of
        None \<Rightarrow> None
      | Some (Inl err) \<Rightarrow> Some (Inl err)
      | Some (Inr files) \<Rightarrow> simpleBlockLoop 0 response files)"

subsection \<open>extractExplanation\<close>

text \<open>
  \<open>s.replace(re, repl)\<close> for a global regular expression (RegExp.prototype[Symbol.replace]):
  every match from left to right is replaced; after an empty match the search goes on one
  code unit further. The fourth argument is \<open>lastIndex\<close>, the fifth the input from there on.
\<close>

function replaceAll :: "bool \<Rightarrow> rx \<Rightarrow> jsstring \<Rightarrow> nat \<Rightarrow> jsstring \<Rightarrow> jsstring" where
  "replaceAll ic r repl lastIndex s =
     (case search ic r lastIndex s of
        None \<Rightarrow> s
      | Some (p, e, t, caps) \<Rightarrow>
          take (p - lastIndex) s @ repl @
            (if e = p then (case t of [] \<Rightarrow> [] | x # xs \<Rightarrow> x # replaceAll ic r repl (e + 1) xs)
             else replaceAll ic r repl e t))"
  by pat_completeness auto

termination
proof (relation "measure (\<lambda>(ic, r, repl, lastIndex, s). length s)", goal_cases)
  case 1
  show ?case by simp
next
  case (2 ic r repl lastIndex s x2 p y e ya t caps x xs)
  then have "search ic r lastIndex s = Some (p, e, x # xs, caps)" by simp
  from search_shape[OF this] show ?case by auto
next
  case (3 ic r repl lastIndex s x2 p y e ya t caps)
  then have "search ic r lastIndex s = Some (p, e, t, caps)" by simp
  from search_shape[OF this] \<open>e \<noteq> p\<close> show ?case by auto
qed

declare replaceAll.simps [simp del]

text \<open>\<^verbatim>\<open>/```[\s\S]*?```/g\<close>\<close>

definition fencedBlockRegex :: rx where
  "fencedBlockRegex = seq [str fence, Rep (False, [CSpace, CNotSpace]) 0 None False, str fence]"

definition extractExplanation :: "jsstring \<Rightarrow> jsstring" where
  "extractExplanation response =
     (let text = replaceAll False fencedBlockRegex [] 0 response;
          text = trim (join (filter (\<lambda>line. trim line \<noteq> []) (split text NL)) [NL])
      in if text = [] then js ''Changes applied successfully.'' else text)"

subsection \<open>scanForSecurityIssues\<close>

text \<open>
  The patterns, each with its ignoreCase flag and its name. A pattern object is created by
  each call, so its \<open>lastIndex\<close> is 0 when \<open>test\<close> is called.
  \<^verbatim>\<open>/api[_-]?key\s*[:=]\s*['"][^'"]{10,}['"]/gi\<close>,
  \<^verbatim>\<open>/secret\s*[:=]\s*['"][^'"]{10,}['"]/gi\<close>,
  \<^verbatim>\<open>/password\s*[:=]\s*['"][^'"]+['"]/gi\<close>,
  \<^verbatim>\<open>/sk[-_](live|test)[-_][a-zA-Z0-9]+/g\<close>,
  \<^verbatim>\<open>/AKIA[0-9A-Z]{16}/g\<close>,
  \<^verbatim>\<open>/ghp_[a-zA-Z0-9]{36}/g\<close>,
  \<^verbatim>\<open>/Bearer\s+[a-zA-Z0-9\-._~+/]+={0,2}/g\<close>.
\<close>

definition quote :: cls where
  "quote = (False, [CChar SQ, CChar DQ])"

definition notQuote :: cls where
  "notQuote = (True, [CChar SQ, CChar DQ])"

definition colonOrEquals :: cls where
  "colonOrEquals = (False, [CChar (ch CHR '':''), CChar (ch CHR ''='')])"

definition alnumClass :: "citem list" where
  "alnumClass =
     [CRange (ch CHR ''a'') (ch CHR ''z''), CRange (ch CHR ''A'') (ch CHR ''Z''),
      CRange (ch CHR ''0'') (ch CHR ''9'')]"

definition securityPatterns :: "((bool \<times> rx) \<times> jsstring) list" where
  "securityPatterns =
     [((True, seq [str (js ''api''),
                   Rep (False, [CChar (ch CHR ''_''), CChar (ch CHR ''-'')]) 0 (Some 1) True,
                   str (js ''key''), Rep (False, [CSpace]) 0 None True, Atom colonOrEquals,
                   Rep (False, [CSpace]) 0 None True, Atom quote, Rep notQuote 10 None True,
                   Atom quote]),
       js ''API key''),
      ((True, seq [str (js ''secret''), Rep (False, [CSpace]) 0 None True, Atom colonOrEquals,
                   Rep (False, [CSpace]) 0 None True, Atom quote, Rep notQuote 10 None True,
                   Atom quote]),
       js ''Secret''),
      ((True, seq [str (js ''password''), Rep (False, [CSpace]) 0 None True, Atom colonOrEquals,
                   Rep (False, [CSpace]) 0 None True, Atom quote, Rep notQuote 1 None True,
                   Atom quote]),
       js ''Password''),
      ((False, seq [str (js ''sk''), Atom (False, [CChar (ch CHR ''-''), CChar (ch CHR ''_'')]),
                    Grp 1 (Alt (str (js ''live'')) (str (js ''test''))),
                    Atom (False, [CChar (ch CHR ''-''), CChar (ch CHR ''_'')]),
                    Rep (False, alnumClass) 1 None True]),
       js ''Stripe key''),
      ((False, seq [str (js ''AKIA''),
                    Rep (False, [CRange (ch CHR ''0'') (ch CHR ''9''),
                                 CRange (ch CHR ''A'') (ch CHR ''Z'')]) 16 (Some 16) True]),
       js ''AWS access key''),
      ((False, seq [str (js ''ghp_''), Rep (False, alnumClass) 36 (Some 36) True]),
       js ''GitHub token''),
      ((False, seq [str (js ''Bearer''), Rep (False, [CSpace]) 1 None True,
                    Rep (False, alnumClass @
                           [CChar (ch CHR ''-''), CChar (ch CHR ''.''), CChar (ch CHR ''_''),
                            CChar (ch CHR ''~''), CChar (ch CHR ''+''), CChar (ch CHR ''/'')])
                      1 None True,
                    Rep (False, [CChar (ch CHR ''='')]) 0 (Some 2) True]),
       js ''Bearer token'')]"

text \<open>The template literal \<^verbatim>\<open>`Potential ${name} detected in generated code`\<close>.\<close>

definition finding :: "jsstring \<Rightarrow> jsstring" where
  "finding name = js ''Potential '' @ name @ js '' detected in generated code''"

definition scanForSecurityIssues :: "jsstring \<Rightarrow> jsstring list" where
  "scanForSecurityIssues code =
     foldl (\<lambda>issues ((ic, pattern), name).
              if test ic pattern code then issues @ [finding name] else issues)
       [] securityPatterns"

subsection \<open>determineFileActions\<close>

definition determineFileActions :: "FileChange list \<Rightarrow> jsstring list \<Rightarrow> FileChange list" where
  "determineFileActions changes existingPaths =
     map (\<lambda>change. change\<lparr>action := (if path change \<in> set existingPaths then Update else Create)\<rparr>)
       changes"

section \<open>The notions of the specification\<close>

text \<open>
  The predicates and functions the claims are worded in; none of them is part of the
  program. First the characters: alphanumeric, letters, the characters allowed in a path.
\<close>

definition isAlphaNum :: "cu \<Rightarrow> bool" where
  "isAlphaNum c = ((97 \<le> c \<and> c \<le> 122) \<or> (65 \<le> c \<and> c \<le> 90) \<or> (48 \<le> c \<and> c \<le> 57))"

definition isLetter :: "cu \<Rightarrow> bool" where
  "isLetter c = ((97 \<le> c \<and> c \<le> 122) \<or> (65 \<le> c \<and> c \<le> 90))"

definition isPathChar :: "cu \<Rightarrow> bool" where
  "isPathChar c = (isAlphaNum c \<or> c = 95 \<or> c = 45 \<or> c = 46 \<or> c = 47)"

text \<open>Equality up to (ASCII) case, a dot-extension, and the five rules of a valid path.\<close>

definition equalsIgnoreCase :: "jsstring \<Rightarrow> jsstring \<Rightarrow> bool" where
  "equalsIgnoreCase a b = (map to_lower a = map to_lower b)"

definition hasDotExtension :: "jsstring \<Rightarrow> bool" where
  "hasDotExtension p =
     (\<exists>pre ext. p = pre @ [ch CHR ''.''] @ ext \<and> ext \<noteq> [] \<and> (\<forall>c \<in> set ext. isAlphaNum c))"

definition specValidPath :: "jsstring \<Rightarrow> bool" where
  "specValidPath p =
     ((hasDotExtension p \<or> (\<exists>n \<in> set configFileNames. equalsIgnoreCase p n))
      \<and> \<not> sublist (js ''..'') p
      \<and> \<not> prefix (js ''/'') p
      \<and> \<not> (\<exists>l rest. p = l # ch CHR '':'' # rest \<and> isLetter l)
      \<and> length p \<le> 200
      \<and> (\<forall>c \<in> set p. isPathChar c))"

text \<open>The seven findings, in the order of the categories.\<close>

definition allFindings :: "jsstring list" where
  "allFindings =
     [js ''Potential API key detected in generated code'',
      js ''Potential Secret detected in generated code'',
      js ''Potential Password detected in generated code'',
      js ''Potential Stripe key detected in generated code'',
      js ''Potential AWS access key detected in generated code'',
      js ''Potential GitHub token detected in generated code'',
      js ''Potential Bearer token detected in generated code'']"

text \<open>
  \<open>findFence s\<close> splits \<open>s\<close> at its first fence: the text before the fence and the text
  after it.
\<close>

fun findFence :: "jsstring \<Rightarrow> (jsstring \<times> jsstring) option" where
  "findFence [] = None"
| "findFence (x # xs) =
     (if startsWith (x # xs) fence then Some ([], drop 3 (x # xs))
      else map_option (\<lambda>(pre, rest). (x # pre, rest)) (findFence xs))"

text \<open>
  The specification's removal of fenced blocks: from the first fence to the next fence after
  it, again and again; a fence that is not closed stays.
\<close>

function removeFenced :: "jsstring \<Rightarrow> jsstring" where
  "removeFenced s =
     (case findFence s of
        None \<Rightarrow> s
      | Some (pre, r) \<Rightarrow>
          (case findFence r of
             None \<Rightarrow> s
           | Some (body, rest) \<Rightarrow> pre @ removeFenced rest))"
  by pat_completeness auto

termination
proof (relation "measure length", goal_cases)
  case 1
  show ?case by simp
next
  case (2 s x2 pre r x2a body rest)
  have shorter: "length b < length a" if "findFence a = Some (p, b)" for a p b
    using that
  proof (induction a arbitrary: p)
    case Nil
    then show ?case by simp
  next
    case (Cons x xs)
    show ?case
    proof (cases "startsWith (x # xs) fence")
      case True
      with Cons.prems have "b = drop 3 (x # xs)" by simp
      then show ?thesis by simp
    next
      case False
      with Cons.prems obtain p' where "findFence xs = Some (p', b)"
        by (auto split: option.splits)
      from Cons.IH[OF this] show ?thesis by simp
    qed
  qed
  from 2 have "findFence s = Some (pre, r)" "findFence r = Some (body, rest)" by simp_all
  from shorter[OF this(1)] shorter[OF this(2)] show ?case by simp
qed

declare removeFenced.simps [simp del]

text \<open>
  The steps of the explanation, said without the program's own string functions: a blank
  line holds whitespace only; \<open>withNewlines\<close> puts a newline between consecutive lines;
  \<open>isLinesOf ls s\<close> says that \<open>ls\<close> are the lines of \<open>s\<close> (no line holds a newline and
  the lines with newlines between them are \<open>s\<close>); \<open>isTrimOf t s\<close> says that \<open>t\<close> is
  \<open>s\<close> without the whitespace at its two ends.
\<close>

definition blankLine :: "jsstring \<Rightarrow> bool" where
  "blankLine l = (\<forall>c \<in> set l. isWhiteSpace c)"

definition withNewlines :: "jsstring list \<Rightarrow> jsstring" where
  "withNewlines ls =
     (if ls = [] then [] else concat (map (\<lambda>l. l @ [NL]) (butlast ls)) @ last ls)"

definition isLinesOf :: "jsstring list \<Rightarrow> jsstring \<Rightarrow> bool" where
  "isLinesOf ls s = (ls \<noteq> [] \<and> (\<forall>l \<in> set ls. NL \<notin> set l) \<and> s = withNewlines ls)"

definition isTrimOf :: "jsstring \<Rightarrow> jsstring \<Rightarrow> bool" where
  "isTrimOf t s =
     (\<exists>a b. s = a @ t @ b \<and> blankLine a \<and> blankLine b
        \<and> (t = [] \<or> \<not> isWhiteSpace (hd t) \<and> \<not> isWhiteSpace (last t)))"

text \<open>A fenced block: a fence, a body and the first fence after the opening one.\<close>

definition fencedBlock :: "jsstring \<Rightarrow> bool" where
  "fencedBlock blk =
     (\<exists>body. blk = fence @ body @ fence \<and> findFence (body @ fence) = Some (body, []))"

section \<open>Example inputs\<close>

text \<open>
  The response of the specification's example: a block tagged \<open>filepath:src/App.tsx\<close>
  followed by a line of prose.
\<close>

definition appResponse :: jsstring where
  "appResponse =
     fence @ js ''filepath:src/App.tsx'' @ [NL] @
     js ''export default function App() {}'' @ [NL] @
     fence @ [NL] @
     js ''Created the app component.''"

text \<open>The line of the specification's example for the scanner.\<close>

definition apiKeyLine :: jsstring where
  "apiKeyLine = js ''const apiKey = '' @ [DQ] @ js ''sk-live-abcdef1234567890'' @ [DQ]"

text \<open>A response with two blocks tagged with the same path.\<close>

definition twiceResponse :: jsstring where
  "twiceResponse =
     fence @ js ''filepath:src/a.ts'' @ [NL] @ js ''x'' @ [NL] @ fence @ [NL] @
     fence @ js ''filepath:src/a.ts'' @ [NL] @ js ''y'' @ [NL] @ fence"

text \<open>A response whose block does not close.\<close>

definition unclosedResponse :: jsstring where
  "unclosedResponse = js ''Done.'' @ [NL] @ fence @ js ''ts'' @ [NL] @ js ''const x = 1;''"

text \<open>A response of two lines with whitespace next to the newline.\<close>

definition spacedResponse :: jsstring where
  "spacedResponse = js ''a '' @ [NL] @ js '' b''"

text \<open>A response with prose, blank lines and one fenced block.\<close>

definition proseResponse :: jsstring where
  "proseResponse =
     js '' First. '' @ [NL] @ [NL] @ fence @ js ''x'' @ fence @ [NL] @ js ''  second '' @ [NL]"

section \<open>The path validator against its specification\<close>

lemma alnum_cls:
  "cls_match True (False, [CRange 97 122, CRange 48 57]) c \<longleftrightarrow> isAlphaNum c"
  by (auto simp: cls_match.simps class_has_def to_upper_def to_lower_def isAlphaNum_def)

lemma letter_cls:
  "cls_match True (False, [CRange 65 90]) c \<longleftrightarrow> isLetter c"
  by (auto simp: cls_match.simps class_has_def to_upper_def to_lower_def isLetter_def)

lemma allowed_cls:
  "cls_match False (False, [CWord, CChar 45, CChar 46, CChar 47]) c \<longleftrightarrow>
     (isAlphaNum c \<or> c = 95 \<or> c = 45 \<or> c = 46 \<or> c = 47)"
  by (auto simp: cls_match.simps class_has_def isWordChar_def isAlphaNum_def)

lemma hasExtension_iff:
  "test True hasExtensionRegex p \<longleftrightarrow>
     (\<exists>pre ext. p = pre @ [46] @ ext \<and> ext \<noteq> [] \<and> (\<forall>c \<in> set ext. isAlphaNum c))"
proof
  assume "test True hasExtensionRegex p"
  then obtain u v st' where uv: "p = u @ v"
    and a: "acc True hasExtensionRegex (length u, v, Map.empty) st'"
    unfolding test_iff by blast
  from a obtain x t where "v = x # t" "to_lower x = to_lower 46"
    "\<forall>c \<in> set t. isAlphaNum c" "Suc 0 \<le> length t"
    by (auto simp: hasExtensionRegex_def ch_def acc_lit alnum_cls)
  moreover from this have "x = 46"
    by (auto simp: to_lower_def split: if_splits)
  ultimately have "p = u @ [46] @ t" "t \<noteq> []" "\<forall>c \<in> set t. isAlphaNum c"
    using uv by auto
  then show "\<exists>pre ext. p = pre @ [46] @ ext \<and> ext \<noteq> [] \<and> (\<forall>c \<in> set ext. isAlphaNum c)"
    by blast
next
  assume "\<exists>pre ext. p = pre @ [46] @ ext \<and> ext \<noteq> [] \<and> (\<forall>c \<in> set ext. isAlphaNum c)"
  then obtain pre ext where pe: "p = pre @ [46] @ ext" "ext \<noteq> []" "\<forall>c \<in> set ext. isAlphaNum c"
    by blast
  have "acc True hasExtensionRegex (length pre, 46 # ext, Map.empty)
          (length pre + 1 + length ext, [], Map.empty)"
    using pe(2,3) by (auto simp: hasExtensionRegex_def ch_def acc_lit alnum_cls Suc_le_eq)
  then show "test True hasExtensionRegex p"
    unfolding test_iff using pe(1) by (intro exI[of _ pre] exI[of _ "46 # ext"] exI) auto
qed

lemma acc_alts:
  "rs \<noteq> [] \<Longrightarrow> acc ic (alts rs) st st' \<longleftrightarrow> (\<exists>r \<in> set rs. acc ic r st st')"
  by (induction rs rule: alts.induct) auto

lemma isConfigFile_iff:
  "test True isConfigFileRegex p \<longleftrightarrow> (\<exists>n \<in> set configFileNames. equalsIgnoreCase p n)"
proof
  assume "test True isConfigFileRegex p"
  then obtain u v st' where uv: "p = u @ v"
    and a: "acc True isConfigFileRegex (length u, v, Map.empty) st'"
    unfolding test_iff by blast
  have ne: "map str configFileNames \<noteq> []" by (simp add: configFileNames_def)
  from a obtain j c where u0: "u = []"
    and "acc True (alts (map str configFileNames)) (0, v, Map.empty) (j, [], c)"
    by (auto simp: isConfigFileRegex_def)
  then obtain n where n: "n \<in> set configFileNames" "acc True (str n) (0, v, Map.empty) (j, [], c)"
    unfolding acc_alts[OF ne] by auto
  from n(2) have "map to_lower v = map to_lower n" unfolding acc_str by auto
  then show "\<exists>n \<in> set configFileNames. equalsIgnoreCase p n"
    using n(1) uv u0 by (auto simp: equalsIgnoreCase_def)
next
  assume "\<exists>n \<in> set configFileNames. equalsIgnoreCase p n"
  then obtain n where n: "n \<in> set configFileNames" "map to_lower p = map to_lower n"
    by (auto simp: equalsIgnoreCase_def)
  have ne: "map str configFileNames \<noteq> []" by (simp add: configFileNames_def)
  from n(2) have len: "length p = length n" by (rule map_eq_imp_length_eq)
  have "acc True (str n) (0, p, Map.empty) (0 + length n, [], Map.empty)"
    unfolding acc_str using n(2) len by auto
  then have "acc True (alts (map str configFileNames)) (0, p, Map.empty) (length n, [], Map.empty)"
    unfolding acc_alts[OF ne] using n(1) by auto
  then have "acc True isConfigFileRegex (length ([]::jsstring), p, Map.empty)
               (length n, [], Map.empty(1 \<mapsto> take (length n - 0) p))"
    unfolding isConfigFileRegex_def seq.simps acc.simps by auto
  then show "test True isConfigFileRegex p"
    unfolding test_iff by (intro exI[of _ "[]"] exI[of _ p] exI) auto
qed

lemma drive_iff:
  "test True driveRegex p \<longleftrightarrow> (\<exists>l rest. p = l # 58 # rest \<and> isLetter l)"
proof
  assume "test True driveRegex p"
  then obtain u v st' where uv: "p = u @ v"
    and a: "acc True driveRegex (length u, v, Map.empty) st'"
    unfolding test_iff by blast
  from a obtain l x t where "u = []" "v = l # x # t" "isLetter l" "to_lower x = to_lower 58"
    by (auto simp: driveRegex_def ch_def acc_lit letter_cls)
  moreover from this have "x = 58" by (auto simp: to_lower_def split: if_splits)
  ultimately show "\<exists>l rest. p = l # 58 # rest \<and> isLetter l" using uv by auto
next
  assume "\<exists>l rest. p = l # 58 # rest \<and> isLetter l"
  then obtain l rest where p: "p = l # 58 # rest" "isLetter l" by blast
  have "acc True driveRegex (length ([]::jsstring), p, Map.empty) (2, rest, Map.empty)"
    using p by (auto simp: driveRegex_def ch_def acc_lit letter_cls)
  then show "test True driveRegex p"
    unfolding test_iff by (intro exI[of _ "[]"] exI[of _ p] exI) auto
qed

lemma allowedChars_iff:
  "test False allowedCharsRegex p \<longleftrightarrow> (p \<noteq> [] \<and> (\<forall>c \<in> set p. isPathChar c))"
proof
  assume "test False allowedCharsRegex p"
  then obtain u v st' where uv: "p = u @ v"
    and a: "acc False allowedCharsRegex (length u, v, Map.empty) st'"
    unfolding test_iff by blast
  from a have "u = []" "\<forall>c \<in> set v. isPathChar c" "Suc 0 \<le> length v"
    by (auto simp: allowedCharsRegex_def ch_def allowed_cls isPathChar_def)
  then show "p \<noteq> [] \<and> (\<forall>c \<in> set p. isPathChar c)" using uv by auto
next
  assume p: "p \<noteq> [] \<and> (\<forall>c \<in> set p. isPathChar c)"
  have "acc False allowedCharsRegex (length ([]::jsstring), p, Map.empty) (length p, [], Map.empty)"
    using p by (auto simp: allowedCharsRegex_def ch_def allowed_cls isPathChar_def Suc_le_eq)
  then show "test False allowedCharsRegex p"
    unfolding test_iff by (intro exI[of _ "[]"] exI[of _ p] exI) auto
qed

lemma isValidFilePath_iff: "isValidFilePath p \<longleftrightarrow> specValidPath p"
proof -
  have ne: "hasDotExtension p \<or> (\<exists>n \<in> set configFileNames. equalsIgnoreCase p n) \<Longrightarrow> p \<noteq> []"
    by (auto simp: hasDotExtension_def equalsIgnoreCase_def configFileNames_def js_def)
  have sl: "startsWith p (js ''/'') \<longleftrightarrow> prefix (js ''/'') p"
    by (cases p) (auto simp: startsWith_def prefix_def js_def)
  have inc: "includesStr p (js ''..'') \<longleftrightarrow> sublist (js ''..'') p"
    by (simp add: includesStr_iff sublist_def)
  have he: "test True hasExtensionRegex p \<longleftrightarrow> hasDotExtension p"
    by (simp add: hasExtension_iff hasDotExtension_def ch_def)
  have dr: "test True driveRegex p \<longleftrightarrow> (\<exists>l rest. p = l # ch CHR '':'' # rest \<and> isLetter l)"
    by (simp add: drive_iff ch_def)
  show ?thesis
    unfolding isValidFilePath_def specValidPath_def Let_def he isConfigFile_iff inc sl dr
      allowedChars_iff
    using ne by auto
qed

section \<open>The two extraction loops\<close>

text \<open>
  The captures of a group and the repetitions of a quantifier as substrings of the input.
\<close>

lemma acc_Grp:
  "acc ic (Grp g r) (i, s, caps) st' \<longleftrightarrow>
     (\<exists>w t caps'. s = w @ t \<and> acc ic r (i, s, caps) (i + length w, t, caps')
        \<and> st' = (i + length w, t, caps'(g \<mapsto> w)))"
proof
  assume "acc ic (Grp g r) (i, s, caps) st'"
  then obtain j t caps' where a: "acc ic r (i, s, caps) (j, t, caps')"
    and st': "st' = (j, t, caps'(g \<mapsto> take (j - i) s))" by auto
  from acc_shape[OF a] obtain w where w: "s = w @ t" "j = i + length w" by blast
  show "\<exists>w t caps'. s = w @ t \<and> acc ic r (i, s, caps) (i + length w, t, caps')
        \<and> st' = (i + length w, t, caps'(g \<mapsto> w))"
    by (rule exI[of _ w], rule exI[of _ t], rule exI[of _ caps']) (use a st' w in simp)
next
  assume "\<exists>w t caps'. s = w @ t \<and> acc ic r (i, s, caps) (i + length w, t, caps')
        \<and> st' = (i + length w, t, caps'(g \<mapsto> w))"
  then obtain w t caps' where "s = w @ t" "acc ic r (i, s, caps) (i + length w, t, caps')"
    "st' = (i + length w, t, caps'(g \<mapsto> w))" by blast
  then show "acc ic (Grp g r) (i, s, caps) st'" by auto
qed

lemma acc_Rep:
  "acc ic (Rep c mn mx g) (i, s, caps) st' \<longleftrightarrow>
     (\<exists>w t. s = w @ t \<and> (\<forall>x \<in> set w. cls_match ic c x) \<and> cnt_ok mn mx (length w)
        \<and> st' = (i + length w, t, caps))"
proof
  assume "acc ic (Rep c mn mx g) (i, s, caps) st'"
  then obtain n where n: "n \<le> length s" "\<forall>x \<in> set (take n s). cls_match ic c x" "cnt_ok mn mx n"
    "st' = (i + n, drop n s, caps)" by auto
  show "\<exists>w t. s = w @ t \<and> (\<forall>x \<in> set w. cls_match ic c x) \<and> cnt_ok mn mx (length w)
        \<and> st' = (i + length w, t, caps)"
    by (rule exI[of _ "take n s"], rule exI[of _ "drop n s"]) (use n in \<open>simp add: min_absorb2\<close>)
next
  assume "\<exists>w t. s = w @ t \<and> (\<forall>x \<in> set w. cls_match ic c x) \<and> cnt_ok mn mx (length w)
        \<and> st' = (i + length w, t, caps)"
  then obtain w t where "s = w @ t" "\<forall>x \<in> set w. cls_match ic c x" "cnt_ok mn mx (length w)"
    "st' = (i + length w, t, caps)" by blast
  then show "acc ic (Rep c mn mx g) (i, s, caps) st'"
    by (auto intro!: exI[of _ "length w"])
qed

lemmas acc_strings = acc_lit acc_str acc_Grp acc_Rep

lemma codeBlock_caps:
  assumes "acc False codeBlockRegex (p, v, c0) (e, t, caps)"
  shows "caps 1 \<noteq> None \<and> caps 2 \<noteq> None \<and> length t < length v"
  using assms unfolding codeBlockRegex_def fence_def seq.simps
  by (auto simp: acc_strings simp del: acc.simps(7,9))

lemma simpleBlock_caps:
  assumes "acc False simpleBlockRegex (p, v, c0) (e, t, caps)"
  shows "(\<exists>w. caps 3 = Some w \<and> 46 \<in> set w) \<and> caps 4 \<noteq> None \<and> length t < length v"
  using assms unfolding simpleBlockRegex_def fence_def seq.simps
  by (auto simp: acc_strings ch_def simp del: acc.simps(7,9))

lemma exec_loop_total:
  fixes loop :: "nat \<Rightarrow> jsstring \<Rightarrow> FileChange list \<Rightarrow> (error + FileChange list) option"
  assumes eq: "\<And>i s files. loop i s files =
       (case search ic r i s of
          None \<Rightarrow> Some (Inr files)
        | Some (p, e, t, caps) \<Rightarrow>
            (case step caps files of
               Inl err \<Rightarrow> Some (Inl err)
             | Inr files' \<Rightarrow> loop e t files'))"
    and prog: "\<And>i s p e t caps. search ic r i s = Some (p, e, t, caps) \<Longrightarrow> length t < length s \<and> Q caps"
    and step: "\<And>caps files. Q caps \<Longrightarrow> P files \<Longrightarrow> \<exists>files'. step caps files = Inr files' \<and> P files'"
    and init: "P files"
  shows "\<exists>files'. loop i s files = Some (Inr files') \<and> P files'"
  using init
proof (induction s arbitrary: i files rule: length_induct)
  case (1 s)
  show ?case
  proof (cases "search ic r i s")
    case None
    then show ?thesis using "1.prems" by (subst eq) simp
  next
    case (Some res)
    obtain p e t caps where res: "res = (p, e, t, caps)" by (cases res) auto
    from prog[OF Some[unfolded res]] have lt: "length t < length s" and q: "Q caps" by auto
    from step[OF q "1.prems"] obtain files1 where s1: "step caps files = Inr files1" "P files1"
      by blast
    from "1.IH" lt s1(2) obtain files' where "loop e t files1 = Some (Inr files')" "P files'"
      by blast
    then show ?thesis using Some res s1(1) by (subst eq) simp
  qed
qed

lemma codeBlock_progress:
  assumes "search False codeBlockRegex i s = Some (p, e, t, caps)"
  shows "length t < length s \<and> (caps 1 \<noteq> None \<and> caps 2 \<noteq> None)"
proof -
  from search_sound[OF assms] obtain u v where "s = u @ v"
    "acc False codeBlockRegex (p, v, Map.empty) (e, t, caps)" by blast
  then show ?thesis using codeBlock_caps by fastforce
qed

lemma simpleBlock_progress:
  assumes "search False simpleBlockRegex i s = Some (p, e, t, caps)"
  shows "length t < length s \<and> ((\<exists>w. caps 3 = Some w \<and> 46 \<in> set w) \<and> caps 4 \<noteq> None)"
proof -
  from search_sound[OF assms] obtain u v where "s = u @ v"
    "acc False simpleBlockRegex (p, v, Map.empty) (e, t, caps)" by blast
  then show ?thesis using simpleBlock_caps by fastforce
qed

text \<open>What one iteration of either loop does to the list: nothing, or one more file.\<close>

lemma codeBlockStep_cases:
  assumes "caps 1 \<noteq> None \<and> caps 2 \<noteq> None"
  shows "codeBlockStep caps files = Inr files \<or>
         (\<exists>p c. codeBlockStep caps files = Inr (files @ [\<lparr>path = p, action = Create, content = Some c\<rparr>])
            \<and> isValidFilePath p \<and> (includesStr p (js ''.'') \<or> includesStr p (js ''/'')))"
proof -
  from assms obtain m1 c where caps: "caps 1 = Some m1" "caps 2 = Some c" by auto
  define pathPart where "pathPart = trim m1"
  define fp where "fp = trim (replaceFirst True languageRegex
      (if startsWith pathPart (js ''filepath:'') then trim (substring pathPart 9) else pathPart) [])"
  define A where "A \<longleftrightarrow> pathPart = [] \<or> includesStr pathPart (js '' '') \<and> \<not> startsWith pathPart (js ''filepath:'')"
  define B where "B \<longleftrightarrow> fp = [] \<or> \<not> includesStr fp (js ''.'') \<and> \<not> includesStr fp (js ''/'')"
  have eq: "codeBlockStep caps files =
      (if A then Inr files else if B then Inr files
       else if isValidFilePath fp
       then Inr (files @ [\<lparr>path = fp, action = Create, content = Some (trim c)\<rparr>])
       else Inr files)"
    unfolding codeBlockStep_def caps Let_def A_def B_def fp_def pathPart_def by simp
  show ?thesis
  proof (cases "\<not> A \<and> \<not> B \<and> isValidFilePath fp")
    case True
    then have "codeBlockStep caps files = Inr (files @ [\<lparr>path = fp, action = Create, content = Some (trim c)\<rparr>])"
      and "isValidFilePath fp" and "includesStr fp (js ''.'') \<or> includesStr fp (js ''/'')"
      using eq by (auto simp: B_def)
    then show ?thesis by blast
  next
    case False
    then have "codeBlockStep caps files = Inr files" using eq by auto
    then show ?thesis by blast
  qed
qed

lemma simpleBlockStep_cases:
  assumes "(\<exists>w. caps 3 = Some w \<and> 46 \<in> set w) \<and> caps 4 \<noteq> None"
  shows "simpleBlockStep caps files = Inr files \<or>
         (\<exists>w c. simpleBlockStep caps files =
                   Inr (files @ [\<lparr>path = trim w, action = Create, content = Some c\<rparr>])
            \<and> isValidFilePath (trim w) \<and> 46 \<in> set w \<and> trim w \<notin> path ` set files)"
proof -
  from assms obtain w c where caps: "caps 3 = Some w" "caps 4 = Some c" and dot: "46 \<in> set w"
    by auto
  have eq: "simpleBlockStep caps files =
      (if trim w \<in> path ` set files then Inr files
       else if isValidFilePath (trim w)
       then Inr (files @ [\<lparr>path = trim w, action = Create, content = Some (trim c)\<rparr>])
       else Inr files)"
    unfolding simpleBlockStep_def caps Let_def by (auto simp: list_ex_iff intro: rev_image_eqI)
  show ?thesis
  proof (cases "trim w \<notin> path ` set files \<and> isValidFilePath (trim w)")
    case True
    then have "simpleBlockStep caps files =
        Inr (files @ [\<lparr>path = trim w, action = Create, content = Some (trim c)\<rparr>])"
      using eq by auto
    then show ?thesis using True dot by blast
  next
    case False
    then have "simpleBlockStep caps files = Inr files" using eq by auto
    then show ?thesis by blast
  qed
qed

lemma parseFileChanges_invariant:
  assumes init: "P []"
    and s1: "\<And>files p c. P files \<Longrightarrow> isValidFilePath p \<Longrightarrow>
               includesStr p (js ''.'') \<or> includesStr p (js ''/'') \<Longrightarrow>
               P (files @ [\<lparr>path = p, action = Create, content = Some c\<rparr>])"
    and s2: "\<And>files w c. P files \<Longrightarrow> isValidFilePath (trim w) \<Longrightarrow> 46 \<in> set w \<Longrightarrow>
               trim w \<notin> path ` set files \<Longrightarrow>
               P (files @ [\<lparr>path = trim w, action = Create, content = Some c\<rparr>])"
  shows "\<exists>files. parseFileChanges response = Some (Inr files) \<and> P files"
proof -
  have 1: "\<exists>files'. codeBlockStep caps files = Inr files' \<and> P files'"
    if "caps 1 \<noteq> None \<and> caps 2 \<noteq> None" "P files" for caps files
    using codeBlockStep_cases[OF that(1), of files] that(2) s1 by auto
  have 2: "\<exists>files'. simpleBlockStep caps files = Inr files' \<and> P files'"
    if "(\<exists>w. caps 3 = Some w \<and> 46 \<in> set w) \<and> caps 4 \<noteq> None" "P files" for caps files
    using simpleBlockStep_cases[OF that(1), of files] that(2) s2 by auto
  have "\<exists>files'. codeBlockLoop 0 response [] = Some (Inr files') \<and> P files'"
  proof (rule exec_loop_total[where Q = "\<lambda>caps. caps 1 \<noteq> None \<and> caps 2 \<noteq> None"
        and step = codeBlockStep and ic = False and r = codeBlockRegex])
    show "codeBlockLoop i s files =
       (case search False codeBlockRegex i s of
          None \<Rightarrow> Some (Inr files)
        | Some (p, e, t, caps) \<Rightarrow>
            (case codeBlockStep caps files of
               Inl err \<Rightarrow> Some (Inl err)
             | Inr files' \<Rightarrow> codeBlockLoop e t files'))" for i s files
      by (rule codeBlockLoop.simps)
  qed (use codeBlock_progress 1 init in blast)+
  then obtain files1 where f1: "codeBlockLoop 0 response [] = Some (Inr files1)" "P files1" by blast
  have "\<exists>files'. simpleBlockLoop 0 response files1 = Some (Inr files') \<and> P files'"
  proof (rule exec_loop_total[where Q = "\<lambda>caps. (\<exists>w. caps 3 = Some w \<and> 46 \<in> set w) \<and> caps 4 \<noteq> None"
        and step = simpleBlockStep and ic = False and r = simpleBlockRegex])
    show "simpleBlockLoop i s files =
       (case search False simpleBlockRegex i s of
          None \<Rightarrow> Some (Inr files)
        | Some (p, e, t, caps) \<Rightarrow>
            (case simpleBlockStep caps files of
               Inl err \<Rightarrow> Some (Inl err)
             | Inr files' \<Rightarrow> simpleBlockLoop e t files'))" for i s files
      by (rule simpleBlockLoop.simps)
  qed (use simpleBlock_progress 2 f1(2) in blast)+
  then obtain files2 where "simpleBlockLoop 0 response files1 = Some (Inr files2)" "P files2" by blast
  then show ?thesis using f1(1) by (auto simp: parseFileChanges_def)
qed

section \<open>The action classifier\<close>

lemma determineFileActions_nth:
  assumes "i < length changes"
  shows "determineFileActions changes existingPaths ! i =
           (changes ! i)\<lparr>action := (if path (changes ! i) \<in> set existingPaths then Update else Create)\<rparr>"
  using assms by (simp add: determineFileActions_def)

text \<open>
  C4. \<open>determineFileActions\<close> returns a list of the same length and order; the action of
  each element is \<open>Update\<close> when its path is among the existing paths and \<open>Create\<close>
  otherwise; path and content are those of the input element; \<open>Delete\<close> never appears.
\<close>

theorem determineFileActions_classifies:
  "length (determineFileActions changes existingPaths) = length changes \<and>
   (\<forall>i < length changes.
      action (determineFileActions changes existingPaths ! i) =
        (if path (changes ! i) \<in> set existingPaths then Update else Create) \<and>
      path (determineFileActions changes existingPaths ! i) = path (changes ! i) \<and>
      content (determineFileActions changes existingPaths ! i) = content (changes ! i)) \<and>
   (\<forall>f \<in> set (determineFileActions changes existingPaths). action f \<noteq> Delete)"
proof (intro conjI allI impI ballI)
  show "length (determineFileActions changes existingPaths) = length changes"
    by (simp add: determineFileActions_def)
next
  fix i assume "i < length changes"
  then show "action (determineFileActions changes existingPaths ! i) =
        (if path (changes ! i) \<in> set existingPaths then Update else Create)"
    and "path (determineFileActions changes existingPaths ! i) = path (changes ! i)"
    and "content (determineFileActions changes existingPaths ! i) = content (changes ! i)"
    by (simp_all add: determineFileActions_nth)
next
  fix f assume "f \<in> set (determineFileActions changes existingPaths)"
  then show "action f \<noteq> Delete"
    by (auto simp: determineFileActions_def split: if_splits)
qed

theorem determineFileActions_classifies_witness:
  "action (determineFileActions
      [\<lparr>path = js ''src/App.tsx'', action = Create, content = Some (js ''a'')\<rparr>,
       \<lparr>path = js ''src/New.tsx'', action = Create, content = Some (js ''b'')\<rparr>]
      [js ''src/App.tsx''] ! 0) = Update \<and>
   action (determineFileActions
      [\<lparr>path = js ''src/App.tsx'', action = Create, content = Some (js ''a'')\<rparr>,
       \<lparr>path = js ''src/New.tsx'', action = Create, content = Some (js ''b'')\<rparr>]
      [js ''src/App.tsx''] ! 1) = Create \<and>
   length (determineFileActions
      [\<lparr>path = js ''src/App.tsx'', action = Create, content = Some (js ''a'')\<rparr>,
       \<lparr>path = js ''src/New.tsx'', action = Create, content = Some (js ''b'')\<rparr>]
      [js ''src/App.tsx'']) = 2"
proof -
  let ?cs = "[\<lparr>path = js ''src/App.tsx'', action = Create, content = Some (js ''a'')\<rparr>,
       \<lparr>path = js ''src/New.tsx'', action = Create, content = Some (js ''b'')\<rparr>]"
  let ?ex = "[js ''src/App.tsx'']"
  note t = determineFileActions_classifies[of ?cs ?ex]
  from t have len: "length (determineFileActions ?cs ?ex) = length ?cs" by (rule conjunct1)
  from t have nth: "\<forall>i < length ?cs.
      action (determineFileActions ?cs ?ex ! i) =
        (if path (?cs ! i) \<in> set ?ex then Update else Create) \<and>
      path (determineFileActions ?cs ?ex ! i) = path (?cs ! i) \<and>
      content (determineFileActions ?cs ?ex ! i) = content (?cs ! i)"
    by (rule conjunct1[OF conjunct2])
  have "action (determineFileActions ?cs ?ex ! 0) = Update"
    using nth[rule_format, of 0] by (simp add: js_def)
  moreover have "action (determineFileActions ?cs ?ex ! 1) = Create"
    using nth[rule_format, of 1] by (simp add: js_def)
  ultimately show ?thesis using len by simp
qed

section \<open>Concrete runs\<close>

text \<open>The definitions a concrete run of the program unfolds.\<close>

lemmas eval_defs = js_def ch_def NL_def BT_def SQ_def DQ_def isWhiteSpace_def isWordChar_def trim_def
  startsWith_def substring_def class_has_def to_upper_def to_lower_def clear_def test_def lit_def
  cls_match.simps hasExtensionRegex_def configFileNames_def isConfigFileRegex_def driveRegex_def
  allowedCharsRegex_def isValidFilePath_def fence_def codeBlockRegex_def languageNames_def
  languageRegex_def simpleBlockRegex_def replaceFirst_def codeBlockStep_def simpleBlockStep_def
  parseFileChanges_def codeBlockLoop.simps simpleBlockLoop.simps replaceAll.simps
  fencedBlockRegex_def extractExplanation_def quote_def notQuote_def colonOrEquals_def
  alnumClass_def securityPatterns_def finding_def scanForSecurityIssues_def Let_def

lemma parse_appResponse:
  "parseFileChanges appResponse =
     Some (Inr [\<lparr>path = js ''src/App.tsx'', action = Create,
                 content = Some (js ''export default function App() {}'')\<rparr>])"
  by (simp add: eval_defs appResponse_def)

lemma valid_examples:
  "\<not> isValidFilePath (js ''../../etc/passwd'')"
  "isValidFilePath (js ''src/App.tsx'')"
  "isValidFilePath (js ''README'')"
  "\<not> isValidFilePath (js ''C:'' @ [92] @ js ''secrets.txt'')"
  "isValidFilePath (js ''Dockerfile'')"
  "isValidFilePath (js ''Makefile'')"
  by (simp_all add: eval_defs)

section \<open>Claims about the path validator and the paths extracted\<close>

text \<open>
  C3. \<open>isValidFilePath\<close> holds exactly when the path ends in a dot followed by one or more
  alphanumeric characters or equals, up to case, one of the six configuration file names;
  contains no \<open>..\<close>; does not start with a slash or with a letter followed by a colon; is at
  most 200 code units long; and consists of characters in \<open>[A-Za-z0-9_\-./]\<close> only. The four
  examples of the specification evaluate as stated. The function is total: it has no error
  result.
\<close>

theorem isValidFilePath_spec:
  "(\<forall>p. isValidFilePath p = specValidPath p) \<and>
   isValidFilePath (js ''../../etc/passwd'') = False \<and>
   isValidFilePath (js ''src/App.tsx'') = True \<and>
   isValidFilePath (js ''README'') = True \<and>
   isValidFilePath (js ''C:'' @ [92] @ js ''secrets.txt'') = False"
  using isValidFilePath_iff valid_examples by simp

theorem isValidFilePath_spec_witness:
  "isValidFilePath (js ''src/App.tsx'') \<and> specValidPath (js ''src/App.tsx'') \<and>
   \<not> specValidPath (js ''../../etc/passwd'')"
proof -
  from isValidFilePath_spec have eq: "\<forall>p. isValidFilePath p = specValidPath p" by (rule conjunct1)
  from eq have 1: "isValidFilePath (js ''src/App.tsx'') = specValidPath (js ''src/App.tsx'')" by (rule spec)
  from eq have 2: "isValidFilePath (js ''../../etc/passwd'') = specValidPath (js ''../../etc/passwd'')"
    by (rule spec)
  show ?thesis using 1 2 valid_examples(1,2) by simp
qed

text \<open>
  C2. For every response, \<open>parseFileChanges\<close> returns, and every file change returned has a
  path that the validator accepts: no leading slash, no \<open>..\<close>, at most 200 code units, and
  only word characters, hyphen, dot and slash.
\<close>

theorem parseFileChanges_paths_valid:
  "\<exists>files. parseFileChanges response = Some (Inr files) \<and>
     (\<forall>f \<in> set files.
        isValidFilePath (path f) \<and> \<not> prefix (js ''/'') (path f) \<and> \<not> sublist (js ''..'') (path f)
        \<and> length (path f) \<le> 200 \<and> (\<forall>c \<in> set (path f). isPathChar c))"
proof -
  have "\<exists>files. parseFileChanges response = Some (Inr files) \<and>
          (\<forall>f \<in> set files. isValidFilePath (path f))"
    by (rule parseFileChanges_invariant) auto
  then show ?thesis
    unfolding isValidFilePath_iff specValidPath_def by blast
qed

theorem parseFileChanges_paths_valid_witness:
  "parseFileChanges appResponse =
     Some (Inr [\<lparr>path = js ''src/App.tsx'', action = Create,
                 content = Some (js ''export default function App() {}'')\<rparr>]) \<and>
   isValidFilePath (js ''src/App.tsx'') \<and> \<not> prefix (js ''/'') (js ''src/App.tsx'') \<and>
   \<not> sublist (js ''..'') (js ''src/App.tsx'') \<and> length (js ''src/App.tsx'') \<le> 200"
proof -
  from parseFileChanges_paths_valid[of appResponse] obtain files where
    f: "parseFileChanges appResponse = Some (Inr files)"
    and v: "\<forall>f \<in> set files.
        isValidFilePath (path f) \<and> \<not> prefix (js ''/'') (path f) \<and> \<not> sublist (js ''..'') (path f)
        \<and> length (path f) \<le> 200 \<and> (\<forall>c \<in> set (path f). isPathChar c)"
    by blast
  from f have "files = [\<lparr>path = js ''src/App.tsx'', action = Create,
                 content = Some (js ''export default function App() {}'')\<rparr>]"
    unfolding parse_appResponse by simp
  with v show ?thesis using parse_appResponse by simp
qed

lemma includesStr_single: "includesStr s [c] \<longleftrightarrow> c \<in> set s"
  by (induction s) (auto simp: startsWith_def)

lemma in_set_dropWhile: "x \<in> set xs \<Longrightarrow> \<not> P x \<Longrightarrow> x \<in> set (dropWhile P xs)"
  by (induction xs) auto

lemma in_set_trim: "x \<in> set s \<Longrightarrow> \<not> isWhiteSpace x \<Longrightarrow> x \<in> set (trim s)"
  by (simp add: trim_def in_set_dropWhile)

text \<open>
  C9. Every path returned by \<open>parseFileChanges\<close> contains a dot or a slash; so no file
  change is ever produced for \<open>README\<close>, \<open>Dockerfile\<close> or \<open>Makefile\<close>, although the
  validator accepts these three names.
\<close>

theorem parseFileChanges_paths_have_dot_or_slash:
  "(\<exists>files. parseFileChanges response = Some (Inr files) \<and>
     (\<forall>f \<in> set files.
        (ch CHR ''.'' \<in> set (path f) \<or> ch CHR ''/'' \<in> set (path f)) \<and>
        path f \<noteq> js ''README'' \<and> path f \<noteq> js ''Dockerfile'' \<and> path f \<noteq> js ''Makefile'')) \<and>
   isValidFilePath (js ''README'') \<and> isValidFilePath (js ''Dockerfile'') \<and>
   isValidFilePath (js ''Makefile'')"
proof -
  have "\<exists>files. parseFileChanges response = Some (Inr files) \<and>
          (\<forall>f \<in> set files. 46 \<in> set (path f) \<or> 47 \<in> set (path f))"
  proof (rule parseFileChanges_invariant)
    fix files :: "FileChange list" and p :: jsstring and c
    assume "\<forall>f \<in> set files. 46 \<in> set (path f) \<or> 47 \<in> set (path f)"
      and "includesStr p (js ''.'') \<or> includesStr p (js ''/'')"
    then show "\<forall>f \<in> set (files @ [\<lparr>path = p, action = Create, content = Some c\<rparr>]).
                 46 \<in> set (path f) \<or> 47 \<in> set (path f)"
      by (auto simp: js_def includesStr_single)
  next
    fix files :: "FileChange list" and w :: jsstring and c
    assume "\<forall>f \<in> set files. 46 \<in> set (path f) \<or> 47 \<in> set (path f)" and "46 \<in> set w"
    moreover have "\<not> isWhiteSpace 46" by (simp add: isWhiteSpace_def)
    ultimately show "\<forall>f \<in> set (files @ [\<lparr>path = trim w, action = Create, content = Some c\<rparr>]).
                 46 \<in> set (path f) \<or> 47 \<in> set (path f)"
      by (auto simp: in_set_trim)
  qed simp
  then obtain files where f: "parseFileChanges response = Some (Inr files)"
    "\<forall>f \<in> set files. 46 \<in> set (path f) \<or> 47 \<in> set (path f)" by blast
  have "\<forall>f \<in> set files.
        (ch CHR ''.'' \<in> set (path f) \<or> ch CHR ''/'' \<in> set (path f)) \<and>
        path f \<noteq> js ''README'' \<and> path f \<noteq> js ''Dockerfile'' \<and> path f \<noteq> js ''Makefile''"
  proof
    fix x assume "x \<in> set files"
    with f(2) have d: "46 \<in> set (path x) \<or> 47 \<in> set (path x)" by blast
    have "46 \<notin> set (js ''README'') \<and> 47 \<notin> set (js ''README'')"
      "46 \<notin> set (js ''Dockerfile'') \<and> 47 \<notin> set (js ''Dockerfile'')"
      "46 \<notin> set (js ''Makefile'') \<and> 47 \<notin> set (js ''Makefile'')"
      by (simp_all add: js_def)
    with d show "(ch CHR ''.'' \<in> set (path x) \<or> ch CHR ''/'' \<in> set (path x)) \<and>
        path x \<noteq> js ''README'' \<and> path x \<noteq> js ''Dockerfile'' \<and> path x \<noteq> js ''Makefile''"
      by (auto simp: ch_def)
  qed
  with f(1) valid_examples(3,5,6) show ?thesis by blast
qed

theorem parseFileChanges_paths_have_dot_or_slash_witness:
  "parseFileChanges (fence @ js ''README'' @ [NL] @ js ''hello'' @ [NL] @ fence) = Some (Inr []) \<and>
   parseFileChanges appResponse =
     Some (Inr [\<lparr>path = js ''src/App.tsx'', action = Create,
                 content = Some (js ''export default function App() {}'')\<rparr>]) \<and>
   ch CHR ''.'' \<in> set (js ''src/App.tsx'')"
proof -
  from parseFileChanges_paths_have_dot_or_slash[of appResponse] obtain files where
    f: "parseFileChanges appResponse = Some (Inr files)"
    and v: "\<forall>f \<in> set files.
        (ch CHR ''.'' \<in> set (path f) \<or> ch CHR ''/'' \<in> set (path f)) \<and>
        path f \<noteq> js ''README'' \<and> path f \<noteq> js ''Dockerfile'' \<and> path f \<noteq> js ''Makefile''"
    by blast
  from f have "files = [\<lparr>path = js ''src/App.tsx'', action = Create,
                 content = Some (js ''export default function App() {}'')\<rparr>]"
    unfolding parse_appResponse by simp
  with v have "ch CHR ''.'' \<in> set (js ''src/App.tsx'') \<or> ch CHR ''/'' \<in> set (js ''src/App.tsx'')"
    by simp
  moreover have "parseFileChanges (fence @ js ''README'' @ [NL] @ js ''hello'' @ [NL] @ fence) = Some (Inr [])"
    by (simp add: eval_defs)
  ultimately show ?thesis using parse_appResponse by (simp add: js_def ch_def)
qed

section \<open>Claims about the secret scanner and about returning\<close>

text \<open>The loop over the patterns pushes the finding of each pattern that matches, in order.\<close>

lemma foldl_push:
  "foldl (\<lambda>issues x. if P x then issues @ [f x] else issues) ys xs = ys @ map f (filter P xs)"
  by (induction xs arbitrary: ys) auto

lemma scanForSecurityIssues_eq:
  "scanForSecurityIssues code =
     map (\<lambda>((ic, pattern), name). finding name)
       (filter (\<lambda>((ic, pattern), name). test ic pattern code) securityPatterns)"
proof -
  have "(\<lambda>issues ((ic, pattern), name).
           if test ic pattern code then issues @ [finding name] else issues) =
        (\<lambda>issues x. if (\<lambda>((ic, pattern), name). test ic pattern code) x
                      then issues @ [(\<lambda>((ic, pattern), name). finding name) x] else issues)"
    by (auto simp: fun_eq_iff)
  then show ?thesis
    unfolding scanForSecurityIssues_def by (simp only: foldl_push append_Nil)
qed

lemma findings_of_patterns:
  "map (\<lambda>((ic, pattern), name). finding name) securityPatterns = allFindings"
  by (simp add: securityPatterns_def finding_def allFindings_def js_def)

lemma distinct_allFindings: "distinct allFindings"
  by (simp add: allFindings_def js_def)

lemma distinct_count_le_1: "distinct xs \<Longrightarrow> count_list xs x \<le> 1"
  by (induction xs) (auto simp: count_list_0_iff)

lemma scan_subseq: "subseq (scanForSecurityIssues code) allFindings"
  unfolding scanForSecurityIssues_eq findings_of_patterns[symmetric]
  by (rule subseq_map) simp

lemma scan_distinct: "distinct (scanForSecurityIssues code)"
  unfolding scanForSecurityIssues_eq
  by (rule distinct_map_filter) (simp add: findings_of_patterns distinct_allFindings)

lemma scan_length: "length (scanForSecurityIssues code) \<le> 7"
proof -
  have "length (scanForSecurityIssues code) \<le> length securityPatterns"
    unfolding scanForSecurityIssues_eq by simp
  then show ?thesis by (simp add: securityPatterns_def)
qed

lemma scan_apiKeyLine:
  "scanForSecurityIssues apiKeyLine =
     [js ''Potential API key detected in generated code'',
      js ''Potential Stripe key detected in generated code'']"
  by (simp add: eval_defs apiKeyLine_def)

lemma parse_returns: "\<exists>files. parseFileChanges response = Some (Inr files)"
proof -
  have "\<exists>files. parseFileChanges response = Some (Inr files) \<and> True"
    by (rule parseFileChanges_invariant) simp_all
  then show ?thesis by simp
qed

text \<open>
  C8. For every input string, \<open>parseFileChanges\<close> returns a list of file changes: its loops
  end and no method is called on an unset capture. \<open>extractExplanation\<close> and
  \<open>scanForSecurityIssues\<close> are total functions without an error result (the replacement
  loop of \<open>extractExplanation\<close> ends by the termination proof of \<open>replaceAll\<close>). The
  list of \<open>scanForSecurityIssues\<close> has at most 7 elements and holds the finding of a
  category at most once.
\<close>

theorem pipeline_returns:
  "(\<exists>files. parseFileChanges response = Some (Inr files)) \<and>
   (\<exists>text. extractExplanation response = text) \<and>
   length (scanForSecurityIssues code) \<le> 7 \<and>
   (\<forall>name. count_list (scanForSecurityIssues code) (finding name) \<le> 1)"
  using parse_returns scan_length distinct_count_le_1[OF scan_distinct] by simp

theorem pipeline_returns_witness:
  "parseFileChanges [] = Some (Inr []) \<and>
   length (scanForSecurityIssues apiKeyLine) = 2 \<and>
   count_list (scanForSecurityIssues apiKeyLine) (finding (js ''Stripe key'')) = 1"
proof -
  note t = pipeline_returns[of "[]" apiKeyLine]
  from t obtain files where "parseFileChanges [] = Some (Inr files)" by blast
  moreover have "parseFileChanges [] = Some (Inr [])" by (simp add: eval_defs)
  moreover from t have "count_list (scanForSecurityIssues apiKeyLine) (finding (js ''Stripe key'')) \<le> 1"
    by blast
  moreover have "count_list (scanForSecurityIssues apiKeyLine) (finding (js ''Stripe key'')) \<noteq> 0"
    unfolding scan_apiKeyLine by (simp add: finding_def js_def)
  ultimately show ?thesis unfolding scan_apiKeyLine by simp
qed

text \<open>
  C10. The findings returned by \<open>scanForSecurityIssues\<close> are a subsequence of the seven
  strings \<open>Potential <name> detected in generated code\<close>, in the order API key, Secret,
  Password, Stripe key, AWS access key, GitHub token, Bearer token: every element is one of
  them, and they appear in that order.
\<close>

theorem scanForSecurityIssues_findings:
  "subseq (scanForSecurityIssues code)
     [js ''Potential API key detected in generated code'',
      js ''Potential Secret detected in generated code'',
      js ''Potential Password detected in generated code'',
      js ''Potential Stripe key detected in generated code'',
      js ''Potential AWS access key detected in generated code'',
      js ''Potential GitHub token detected in generated code'',
      js ''Potential Bearer token detected in generated code'']"
  using scan_subseq[of code] by (simp only: allFindings_def)

theorem scanForSecurityIssues_findings_witness:
  "subseq
     [js ''Potential API key detected in generated code'',
      js ''Potential Stripe key detected in generated code'']
     [js ''Potential API key detected in generated code'',
      js ''Potential Secret detected in generated code'',
      js ''Potential Password detected in generated code'',
      js ''Potential Stripe key detected in generated code'',
      js ''Potential AWS access key detected in generated code'',
      js ''Potential GitHub token detected in generated code'',
      js ''Potential Bearer token detected in generated code'']"
  using scanForSecurityIssues_findings[of apiKeyLine] by (simp only: scan_apiKeyLine)

section \<open>The example of the specification\<close>

lemma explain_appResponse:
  "extractExplanation appResponse = js ''Created the app component.''"
  by (simp add: eval_defs appResponse_def)

text \<open>
  C5. For the response made of the block \<open>filepath:src/App.tsx\<close> with the body line
  \<open>export default function App() {}\<close> and the prose line \<open>Created the app component.\<close>,
  \<open>parseFileChanges\<close> returns exactly one file change, with that path and that content, and
  \<open>extractExplanation\<close> returns exactly the prose line.
\<close>

theorem app_example:
  "parseFileChanges appResponse =
     Some (Inr [\<lparr>path = js ''src/App.tsx'', action = Create,
                 content = Some (js ''export default function App() {}'')\<rparr>]) \<and>
   extractExplanation appResponse = js ''Created the app component.''"
  using parse_appResponse explain_appResponse by simp

section \<open>Duplicate paths\<close>

text \<open>
  The second loop never pushes a path that is already in the list: it keeps a list of
  pairwise distinct paths so.
\<close>

lemma simpleBlockLoop_keeps_distinct:
  assumes "distinct (map path files)"
  shows "\<exists>files'. simpleBlockLoop i s files = Some (Inr files') \<and> distinct (map path files')"
proof (rule exec_loop_total[where Q = "\<lambda>caps. (\<exists>w. caps 3 = Some w \<and> 46 \<in> set w) \<and> caps 4 \<noteq> None"
      and step = simpleBlockStep and ic = False and r = simpleBlockRegex])
  show "simpleBlockLoop i s files =
     (case search False simpleBlockRegex i s of
        None \<Rightarrow> Some (Inr files)
      | Some (p, e, t, caps) \<Rightarrow>
          (case simpleBlockStep caps files of
             Inl err \<Rightarrow> Some (Inl err)
           | Inr files' \<Rightarrow> simpleBlockLoop e t files'))" for i s files
    by (rule simpleBlockLoop.simps)
next
  show "length t < length s \<and> ((\<exists>w. caps 3 = Some w \<and> 46 \<in> set w) \<and> caps 4 \<noteq> None)"
    if "search False simpleBlockRegex i s = Some (p, e, t, caps)" for i s p e t caps
    using that by (rule simpleBlock_progress)
next
  show "\<exists>files'. simpleBlockStep caps files = Inr files' \<and> distinct (map path files')"
    if "(\<exists>w. caps 3 = Some w \<and> 46 \<in> set w) \<and> caps 4 \<noteq> None" "distinct (map path files)"
    for caps and files :: "FileChange list"
    using simpleBlockStep_cases[OF that(1), of files] that(2) by auto
next
  show "distinct (map path files)" by (rule assms)
qed

text \<open>
  C1. The first loop pushes a file for every block it accepts and never looks at the paths
  already in the list: for a response with two blocks tagged \<open>filepath:src/a.ts\<close> the
  result holds two file changes with the path \<open>src/a.ts\<close>.
\<close>

theorem parseFileChanges_duplicate_paths:
  "parseFileChanges twiceResponse =
     Some (Inr [\<lparr>path = js ''src/a.ts'', action = Create, content = Some (js ''x'')\<rparr>,
                \<lparr>path = js ''src/a.ts'', action = Create, content = Some (js ''y'')\<rparr>])"
  by (simp add: eval_defs twiceResponse_def)

section \<open>The explanation\<close>

lemma startsWith_iff: "startsWith s p \<longleftrightarrow> (\<exists>r. s = p @ r)"
  unfolding startsWith_def by (metis append_eq_conv_conj append_take_drop_id)

lemma startsWith_fence: "startsWith s fence \<Longrightarrow> s = fence @ drop 3 s"
  unfolding startsWith_iff by (auto simp: fence_def)

lemma findFence_Some:
  "findFence s = Some (pre, rest) \<Longrightarrow> s = pre @ fence @ rest"
proof (induction s arbitrary: pre)
  case Nil
  then show ?case by simp
next
  case (Cons x xs)
  show ?case
  proof (cases "startsWith (x # xs) fence")
    case True
    with Cons.prems have "pre = []" "rest = drop 3 (x # xs)" by auto
    then show ?thesis using startsWith_fence[OF True] by simp
  next
    case False
    with Cons.prems obtain pre' where "findFence xs = Some (pre', rest)" "pre = x # pre'"
      by (auto split: option.splits)
    then show ?thesis using Cons.IH by auto
  qed
qed

lemma findFence_None: "findFence s = None \<Longrightarrow> \<not> (\<exists>u v. s = u @ fence @ v)"
proof (induction s)
  case Nil
  then show ?case by (simp add: fence_def)
next
  case (Cons x xs)
  from Cons.prems have ns: "\<not> startsWith (x # xs) fence" and "findFence xs = None"
    by (auto split: if_splits)
  then have IH: "\<not> (\<exists>u v. xs = u @ fence @ v)" using Cons.IH by blast
  show ?case
  proof
    assume "\<exists>u v. x # xs = u @ fence @ v"
    then obtain u v where uv: "x # xs = u @ fence @ v" by blast
    show False
    proof (cases u)
      case Nil
      with uv ns show False by (auto simp: startsWith_iff)
    next
      case (Cons y u')
      with uv have "xs = u' @ fence @ v" by simp
      with IH show False by blast
    qed
  qed
qed

lemma startsWith_fence_append:
  "3 \<le> length s \<Longrightarrow> startsWith (s @ t) fence = startsWith s fence"
  by (simp add: startsWith_def fence_def)

lemma findFence_append:
  "findFence s = Some (pre, r) \<Longrightarrow> findFence (s @ t) = Some (pre, r @ t)"
proof (induction s arbitrary: pre)
  case Nil
  then show ?case by simp
next
  case (Cons x xs)
  from findFence_Some[OF Cons.prems] have len: "3 \<le> length (x # xs)"
    by (metis fence_def le_add1 le_add2 le_trans length_Cons length_append list.size(3) numeral_3_eq_3)
  note sw = startsWith_fence_append[OF len, of t]
  show ?case
  proof (cases "startsWith (x # xs) fence")
    case True
    then show ?thesis using sw len Cons.prems by auto
  next
    case False
    with Cons.prems obtain pre' where p: "findFence xs = Some (pre', r)" "pre = x # pre'"
      by (auto split: option.splits)
    from Cons.IH[OF p(1)] show ?thesis using False sw p(2) by auto
  qed
qed

lemma length_fence: "length fence = 3"
  by (simp add: fence_def)

text \<open>
  The matcher on the pattern of a fenced block, computed: a literal string, the lazy
  \<open>[\s\S]*?\<close> before a fence, the whole pattern, the search for it and the replacement.
\<close>

lemma m_str:
  "m False (str w) k (i, s, caps) =
     (if startsWith s w then k (i + length w, drop (length w) s, caps) else None)"
proof (induction w arbitrary: i s)
  case Nil
  then show ?case by (simp add: startsWith_def)
next
  case (Cons c w)
  show ?case
  proof (cases s)
    case Nil
    then show ?thesis by (simp add: lit_def startsWith_def)
  next
    case (Cons x xs)
    have sw: "startsWith (x # xs) (c # w) \<longleftrightarrow> x = c \<and> startsWith xs w"
      by (auto simp: startsWith_def)
    show ?thesis
      unfolding Cons sw using Cons.IH[of "i + 1" xs]
      by (simp add: lit_def cls_match_lit)
  qed
qed

lemma any_cls: "cls_match False (False, [CSpace, CNotSpace]) x"
  by (simp add: cls_match.simps class_has_def)

lemma lazy_any_fence:
  assumes p: "\<And>x. p x"
    and k: "\<And>i s caps. k (i, s, caps) = (if startsWith s fence then Some (i + 3, drop 3 s, caps) else None)"
  shows "rep p 0 None False k i s caps =
     (case findFence s of None \<Rightarrow> None | Some (body, rest) \<Rightarrow> Some (i + length body + 3, rest, caps))"
proof (induction s arbitrary: i)
  case Nil
  then show ?case by (simp add: k startsWith_def fence_def)
next
  case (Cons x xs)
  show ?case
  proof (cases "startsWith (x # xs) fence")
    case True
    then show ?thesis by (simp add: k)
  next
    case False
    then show ?thesis using Cons.IH[of "i + 1"] p
      by (simp add: k split: option.splits)
  qed
qed

lemma m_fenced:
  "m False fencedBlockRegex Some (i, s, caps) =
     (if startsWith s fence
      then (case findFence (drop 3 s) of
              None \<Rightarrow> None
            | Some (body, rest) \<Rightarrow> Some (i + 6 + length body, rest, caps))
      else None)"
proof -
  let ?k = "m False (Seq (str fence) Eps) Some"
  have k: "?k (i, s, caps) = (if startsWith s fence then Some (i + 3, drop 3 s, caps) else None)"
    for i s caps
    by (simp add: m_str length_fence)
  have "m False fencedBlockRegex Some (i, s, caps) =
          (if startsWith s fence
           then rep (cls_match False (False, [CSpace, CNotSpace])) 0 None False ?k (i + 3) (drop 3 s) caps
           else None)"
    unfolding fencedBlockRegex_def seq.simps m.simps(5) m_str
    by (simp add: length_fence)
  also have "\<dots> = (if startsWith s fence
      then (case findFence (drop 3 s) of
              None \<Rightarrow> None
            | Some (body, rest) \<Rightarrow> Some (i + 6 + length body, rest, caps))
      else None)"
    using lazy_any_fence[where p = "cls_match False (False, [CSpace, CNotSpace])" and k = ?k,
        OF any_cls k, of "i + 3" "drop 3 s" caps]
    by (auto split: option.splits)
  finally show ?thesis .
qed

lemma search_fenced:
  "search False fencedBlockRegex i s =
     (case findFence s of
        None \<Rightarrow> None
      | Some (pre, r) \<Rightarrow>
          (case findFence r of
             None \<Rightarrow> None
           | Some (body, rest) \<Rightarrow>
               Some (i + length pre, i + length pre + 6 + length body, rest, Map.empty)))"
proof (induction s arbitrary: i)
  case Nil
  then show ?case by (simp add: m_fenced startsWith_def fence_def)
next
  case (Cons x xs)
  show ?case
  proof (cases "startsWith (x # xs) fence")
    case sw: True
    then have ff: "findFence (x # xs) = Some ([], drop 3 (x # xs))" by simp
    show ?thesis
    proof (cases "findFence (drop 3 (x # xs))")
      case None
      have mn: "m False fencedBlockRegex Some (i, x # xs, Map.empty) = None"
        using None by (simp add: m_fenced sw)
      have "search False fencedBlockRegex (i + 1) xs = None"
      proof (cases "findFence xs")
        case None
        then show ?thesis by (simp add: Cons.IH)
      next
        case (Some a)
        obtain pre' r' where a: "a = (pre', r')" by (cases a)
        have "findFence r' = None"
        proof (rule ccontr)
          assume "findFence r' \<noteq> None"
          then obtain b rest where "findFence r' = Some (b, rest)" by auto
          then have r': "r' = b @ fence @ rest" by (rule findFence_Some)
          have xs: "xs = pre' @ fence @ r'" using Some a findFence_Some by blast
          have len: "2 - length (pre' @ fence) = 0" by (simp add: length_fence)
          have "drop 3 (x # xs) = drop 2 xs" by simp
          also have "\<dots> = drop 2 ((pre' @ fence) @ (b @ fence @ rest))" using xs r' by simp
          also have "\<dots> = (drop 2 (pre' @ fence) @ b) @ fence @ rest"
            unfolding drop_append len by simp
          finally have "\<exists>u v. drop 3 (x # xs) = u @ fence @ v" by blast
          then show False using findFence_None[OF None] by blast
        qed
        then show ?thesis by (simp add: Cons.IH Some a)
      qed
      then show ?thesis using None by (simp add: mn sw)
    next
      case (Some a)
      obtain body rest where a: "a = (body, rest)" by (cases a)
      have "m False fencedBlockRegex Some (i, x # xs, Map.empty) =
              Some (i + 6 + length body, rest, Map.empty)"
        using Some a by (simp add: m_fenced sw)
      then show ?thesis using Some a by (simp add: sw)
    qed
  next
    case nsw: False
    have mn: "m False fencedBlockRegex Some (i, x # xs, Map.empty) = None"
      by (simp add: m_fenced nsw)
    show ?thesis
      using nsw by (simp add: mn Cons.IH split: option.splits)
  qed
qed

lemma replaceAll_fenced:
  "replaceAll False fencedBlockRegex [] i s = removeFenced s"
proof (induction s arbitrary: i rule: removeFenced.induct)
  case (1 s)
  show ?case
  proof (cases "findFence s")
    case None
    then show ?thesis
      by (subst replaceAll.simps, subst removeFenced.simps) (simp add: search_fenced)
  next
    case (Some a)
    obtain pre r where a: "a = (pre, r)" by (cases a)
    show ?thesis
    proof (cases "findFence r")
      case None
      then show ?thesis using Some a
        by (subst replaceAll.simps, subst removeFenced.simps) (simp add: search_fenced)
    next
      case (Some b)
      obtain body rest where b: "b = (body, rest)" by (cases b)
      have s: "s = pre @ fence @ r" using \<open>findFence s = Some a\<close> a findFence_Some by blast
      have IH: "replaceAll False fencedBlockRegex [] (i + length pre + 6 + length body) rest =
                removeFenced rest"
        using "1.IH"[OF \<open>findFence s = Some a\<close> a[symmetric] Some b[symmetric]] .
      show ?thesis
        using \<open>findFence s = Some a\<close> a Some b IH s
        by (subst replaceAll.simps, subst removeFenced.simps) (simp add: search_fenced)
    qed
  qed
qed

text \<open>
  The program's \<open>split\<close>, \<open>join\<close> and \<open>trim\<close> against the notions of the
  specification: \<open>split\<close> gives the lines and only them, \<open>join\<close> puts the newlines
  between them, \<open>trim\<close> gives the trimmed text and only it.
\<close>

lemma withNewlines_simps:
  "withNewlines [] = []"
  "withNewlines [l] = l"
  "withNewlines (l # l' # ls) = l @ [NL] @ withNewlines (l' # ls)"
  by (simp_all add: withNewlines_def)

lemma join_withNewlines: "join ls [NL] = withNewlines ls"
  by (induction ls "[NL]" rule: join.induct) (simp_all add: withNewlines_simps)

lemma split_not_Nil: "split s sep \<noteq> []"
  by (induction s) (auto split: list.splits)

lemma split_no_sep: "sep \<notin> set l \<Longrightarrow> split l sep = [l]"
  by (induction l) auto

lemma split_append_sep: "sep \<notin> set l \<Longrightarrow> split (l @ sep # r) sep = l # split r sep"
  by (induction l) (auto split: list.splits)

lemma split_withNewlines:
  "ls \<noteq> [] \<Longrightarrow> \<forall>l \<in> set ls. NL \<notin> set l \<Longrightarrow> split (withNewlines ls) NL = ls"
proof (induction ls rule: induct_list012)
  case 1
  then show ?case by simp
next
  case (2 l)
  then show ?case by (simp add: withNewlines_simps split_no_sep)
next
  case (3 l l' ls)
  then show ?case by (simp add: withNewlines_simps split_append_sep)
qed

lemma split_lines_no_sep: "l \<in> set (split s sep) \<Longrightarrow> sep \<notin> set l"
proof (induction s arbitrary: l)
  case Nil
  then show ?case by simp
next
  case (Cons x xs)
  show ?case
  proof (cases "x = sep")
    case True
    with Cons show ?thesis by auto
  next
    case False
    obtain h t where ht: "split xs sep = h # t" using split_not_Nil by (cases "split xs sep") auto
    with Cons.prems False have "l = x # h \<or> l \<in> set t" by auto
    then show ?thesis using Cons.IH[of h] Cons.IH[of l] ht False by auto
  qed
qed

lemma withNewlines_split: "withNewlines (split s NL) = s"
proof (induction s)
  case Nil
  then show ?case by (simp add: withNewlines_simps)
next
  case (Cons x xs)
  obtain h t where ht: "split xs NL = h # t" using split_not_Nil by (cases "split xs NL") auto
  show ?case
  proof (cases "x = NL")
    case True
    then show ?thesis using Cons ht by (simp add: withNewlines_simps)
  next
    case False
    then show ?thesis using Cons ht by (cases t) (auto simp: withNewlines_simps)
  qed
qed

lemma isLinesOf_split: "isLinesOf (split s NL) s"
  by (simp add: isLinesOf_def split_not_Nil split_lines_no_sep withNewlines_split)

lemma isLinesOf_unique: "isLinesOf ls s \<Longrightarrow> ls = split s NL"
  by (simp add: isLinesOf_def split_withNewlines)

lemma trim_Nil_iff: "trim l = [] \<longleftrightarrow> blankLine l"
proof -
  have "trim l = [] \<longleftrightarrow> dropWhile isWhiteSpace (rev (dropWhile isWhiteSpace l)) = []"
    by (simp add: trim_def)
  also have "\<dots> \<longleftrightarrow> (\<forall>c \<in> set (dropWhile isWhiteSpace l). isWhiteSpace c)"
    by (simp add: dropWhile_eq_Nil_conv)
  also have "\<dots> \<longleftrightarrow> dropWhile isWhiteSpace l = []"
    by (metis dropWhile_eq_Nil_conv hd_dropWhile hd_in_set empty_iff list.set(1))
  also have "\<dots> \<longleftrightarrow> blankLine l"
    by (simp add: dropWhile_eq_Nil_conv blankLine_def)
  finally show ?thesis .
qed

lemma isTrimOf_trim: "isTrimOf (trim s) s"
proof -
  define a where "a = takeWhile isWhiteSpace s"
  define u where "u = dropWhile isWhiteSpace s"
  define b where "b = rev (takeWhile isWhiteSpace (rev u))"
  have t: "trim s = rev (dropWhile isWhiteSpace (rev u))" by (simp add: trim_def u_def)
  have s: "s = a @ u" by (simp add: a_def u_def)
  have "rev (takeWhile isWhiteSpace (rev u) @ dropWhile isWhiteSpace (rev u)) = u"
    by (simp only: takeWhile_dropWhile_id rev_rev_ident)
  then have "rev (dropWhile isWhiteSpace (rev u)) @ rev (takeWhile isWhiteSpace (rev u)) = u"
    by (simp only: rev_append)
  then have u: "u = trim s @ b" by (simp only: t b_def)
  have ba: "blankLine a" by (auto simp: blankLine_def a_def dest: set_takeWhileD)
  have bb: "blankLine b" by (auto simp: blankLine_def b_def dest: set_takeWhileD)
  have ends: "\<not> isWhiteSpace (hd (trim s)) \<and> \<not> isWhiteSpace (last (trim s))" if ne: "trim s \<noteq> []"
  proof
    from ne u have "u \<noteq> []" "hd (trim s) = hd u" by auto
    then show "\<not> isWhiteSpace (hd (trim s))" unfolding u_def by (metis hd_dropWhile)
    from ne have "dropWhile isWhiteSpace (rev u) \<noteq> []" by (simp add: t)
    then have "\<not> isWhiteSpace (hd (dropWhile isWhiteSpace (rev u)))" by (rule hd_dropWhile)
    then show "\<not> isWhiteSpace (last (trim s))" using ne by (simp add: t last_rev)
  qed
  show ?thesis
    unfolding isTrimOf_def
    by (rule exI[of _ a], rule exI[of _ b]) (use s u ba bb ends in auto)
qed

lemma isTrimOf_unique: "isTrimOf t s \<Longrightarrow> t = trim s"
proof -
  assume "isTrimOf t s"
  then obtain a b where s: "s = a @ t @ b" and ba: "blankLine a" and bb: "blankLine b"
    and ends: "t = [] \<or> \<not> isWhiteSpace (hd t) \<and> \<not> isWhiteSpace (last t)"
    by (auto simp: isTrimOf_def)
  have 1: "dropWhile isWhiteSpace s = dropWhile isWhiteSpace (t @ b)"
    unfolding s using ba dropWhile_append2[of a isWhiteSpace "t @ b"] by (simp add: blankLine_def)
  show ?thesis
  proof (cases "t = []")
    case True
    then have "blankLine s" using s ba bb by (auto simp: blankLine_def)
    then have "trim s = []" by (simp add: trim_Nil_iff)
    then show ?thesis using True by simp
  next
    case False
    with ends have h: "\<not> isWhiteSpace (hd t)" and l: "\<not> isWhiteSpace (last t)" by auto
    from False h have 2: "dropWhile isWhiteSpace (t @ b) = t @ b" by (cases t) auto
    have "dropWhile isWhiteSpace (rev (t @ b)) = dropWhile isWhiteSpace (rev t)"
      using bb dropWhile_append2[of "rev b" isWhiteSpace "rev t"] by (simp add: blankLine_def)
    also have "\<dots> = rev t" using False l by (cases "rev t") (auto simp: last_rev hd_rev)
    finally show ?thesis by (simp add: trim_def 1 2)
  qed
qed

lemma extractExplanation_removeFenced:
  "extractExplanation response =
     (let text = trim (join (filter (\<lambda>line. trim line \<noteq> []) (split (removeFenced response) NL)) [NL])
      in if text = [] then js ''Changes applied successfully.'' else text)"
  by (simp add: extractExplanation_def replaceAll_fenced Let_def)

lemma explanation_has_lines:
  "\<exists>ls text. isLinesOf ls (removeFenced response) \<and>
     isTrimOf text (withNewlines (filter (\<lambda>l. \<not> blankLine l) ls)) \<and>
     extractExplanation response = (if text = [] then js ''Changes applied successfully.'' else text)"
proof -
  let ?ls = "split (removeFenced response) NL"
  let ?text = "trim (withNewlines (filter (\<lambda>l. \<not> blankLine l) ?ls))"
  have "extractExplanation response = (if ?text = [] then js ''Changes applied successfully.'' else ?text)"
    by (simp add: extractExplanation_removeFenced Let_def join_withNewlines trim_Nil_iff)
  then show ?thesis using isLinesOf_split isTrimOf_trim by blast
qed

lemma explanation_of_lines:
  assumes "isLinesOf ls (removeFenced response)"
    and "isTrimOf text (withNewlines (filter (\<lambda>l. \<not> blankLine l) ls))"
  shows "extractExplanation response = (if text = [] then js ''Changes applied successfully.'' else text)"
proof -
  from assms(1) have ls: "ls = split (removeFenced response) NL" by (rule isLinesOf_unique)
  from assms(2) have "text = trim (withNewlines (filter (\<lambda>l. \<not> blankLine l) ls))"
    by (rule isTrimOf_unique)
  then show ?thesis
    by (simp add: ls extractExplanation_removeFenced Let_def join_withNewlines trim_Nil_iff)
qed

lemma extractExplanation_nonempty: "extractExplanation response \<noteq> []"
  by (simp add: extractExplanation_def Let_def js_def)

lemma findFence_fence: "findFence (fence @ t) = Some ([], t)"
  by (simp add: fence_def startsWith_def)

lemma findFence_body:
  "BT \<notin> set body \<Longrightarrow> findFence (body @ fence) = Some (body, [])"
proof (induction body)
  case Nil
  then show ?case using findFence_fence[of "[]"] by simp
next
  case (Cons x xs)
  then have "\<not> startsWith (x # xs @ fence) fence" by (auto simp: startsWith_def fence_def)
  then show ?case using Cons by simp
qed

lemma fencedBlock_no_backtick: "BT \<notin> set body \<Longrightarrow> fencedBlock (fence @ body @ fence)"
  unfolding fencedBlock_def using findFence_body by blast

lemma removeFenced_blocks:
  "\<forall>blk \<in> set blocks. fencedBlock blk \<Longrightarrow> removeFenced (concat blocks) = []"
proof (induction blocks)
  case Nil
  then show ?case by (subst removeFenced.simps) simp
next
  case (Cons blk blocks)
  then obtain body where b: "blk = fence @ body @ fence" "findFence (body @ fence) = Some (body, [])"
    by (auto simp: fencedBlock_def)
  have 1: "findFence (concat (blk # blocks)) = Some ([], body @ fence @ concat blocks)"
    using findFence_fence[of "body @ fence @ concat blocks"] b(1) by simp
  have 2: "findFence (body @ fence @ concat blocks) = Some (body, concat blocks)"
    using findFence_append[OF b(2), of "concat blocks"] by simp
  have "removeFenced (concat (blk # blocks)) = removeFenced (concat blocks)"
    by (subst removeFenced.simps) (simp only: 1 2 option.case prod.case append_Nil)
  then show ?case using Cons by simp
qed

lemma extractExplanation_blank:
  "removeFenced response = [] \<Longrightarrow> extractExplanation response = js ''Changes applied successfully.''"
  by (simp add: extractExplanation_removeFenced trim_def)

text \<open>
  C6, as stated, fails: the lines are not trimmed before they are joined. For the response
  \<open>a\<close>, space, newline, space, \<open>b\<close> the lines are \<open>a\<close> with a space behind it and \<open>b\<close>
  with a space before it; trimmed and joined they would be \<open>a\<close>, newline, \<open>b\<close>, but the
  program returns the response as it is, with the two spaces next to the newline.
\<close>

theorem extractExplanation_lines_not_trimmed_counterexample:
  "isLinesOf [js ''a '', js '' b''] (removeFenced spacedResponse) \<and>
   isTrimOf (js ''a'') (js ''a '') \<and> isTrimOf (js ''b'') (js '' b'') \<and>
   extractExplanation spacedResponse = js ''a '' @ [NL] @ js '' b'' \<and>
   extractExplanation spacedResponse \<noteq> withNewlines [js ''a'', js ''b'']"
proof -
  have r: "removeFenced spacedResponse = spacedResponse"
    by (subst removeFenced.simps)
      (simp add: spacedResponse_def js_def fence_def BT_def NL_def startsWith_def)
  have 1: "isLinesOf [js ''a '', js '' b''] (removeFenced spacedResponse)"
    unfolding r by (simp add: isLinesOf_def withNewlines_def spacedResponse_def js_def NL_def)
  have 2: "isTrimOf (js ''a'') (js ''a '')"
    unfolding isTrimOf_def
    by (rule exI[of _ "[]"], rule exI[of _ "js '' ''"])
      (simp add: blankLine_def js_def isWhiteSpace_def)
  have 3: "isTrimOf (js ''b'') (js '' b'')"
    unfolding isTrimOf_def
    by (rule exI[of _ "js '' ''"], rule exI[of _ "[]"])
      (simp add: blankLine_def js_def isWhiteSpace_def)
  have 4: "extractExplanation spacedResponse = js ''a '' @ [NL] @ js '' b''"
    by (simp add: eval_defs spacedResponse_def)
  have 5: "extractExplanation spacedResponse \<noteq> withNewlines [js ''a'', js ''b'']"
    unfolding 4 by (simp add: withNewlines_def js_def NL_def)
  from 1 2 3 4 5 show ?thesis by blast
qed

text \<open>
  C6, amended. \<open>extractExplanation\<close> never returns the empty string. It removes every
  fenced block (from a fence to the next fence), drops the blank lines, joins the lines left
  with newlines and trims the joined text once, at its two ends; the lines themselves are
  not trimmed. When nothing is left it returns the fallback. On the empty input and on an
  input that consists of fenced blocks only it returns the fallback.
\<close>

theorem extractExplanation_lines:
  "extractExplanation response \<noteq> [] \<and>
   (\<exists>ls text. isLinesOf ls (removeFenced response) \<and>
      isTrimOf text (withNewlines (filter (\<lambda>l. \<not> blankLine l) ls)) \<and>
      extractExplanation response =
        (if text = [] then js ''Changes applied successfully.'' else text)) \<and>
   (\<forall>ls text. isLinesOf ls (removeFenced response) \<longrightarrow>
      isTrimOf text (withNewlines (filter (\<lambda>l. \<not> blankLine l) ls)) \<longrightarrow>
      extractExplanation response =
        (if text = [] then js ''Changes applied successfully.'' else text)) \<and>
   extractExplanation [] = js ''Changes applied successfully.'' \<and>
   (\<forall>blocks. (\<forall>blk \<in> set blocks. fencedBlock blk) \<longrightarrow>
      extractExplanation (concat blocks) = js ''Changes applied successfully.'')"
proof -
  have "removeFenced [] = []" by (subst removeFenced.simps) simp
  then have e: "extractExplanation [] = js ''Changes applied successfully.''"
    by (rule extractExplanation_blank)
  have b: "extractExplanation (concat blocks) = js ''Changes applied successfully.''"
    if "\<forall>blk \<in> set blocks. fencedBlock blk" for blocks
    using removeFenced_blocks[OF that] by (rule extractExplanation_blank)
  show ?thesis
    using extractExplanation_nonempty explanation_has_lines explanation_of_lines e b
    by (intro conjI allI impI) blast+
qed

theorem extractExplanation_lines_witness:
  "isLinesOf [js '' First. '', [], [], js ''  second '', []] (removeFenced proseResponse) \<and>
   isTrimOf (js ''First. '' @ [NL] @ js ''  second'')
     (withNewlines (filter (\<lambda>l. \<not> blankLine l) [js '' First. '', [], [], js ''  second '', []])) \<and>
   extractExplanation proseResponse = js ''First. '' @ [NL] @ js ''  second'' \<and>
   fencedBlock (fence @ js ''ts'' @ [NL] @ js ''let a = 1;'' @ [NL] @ fence) \<and>
   fencedBlock (fence @ js ''b'' @ fence) \<and>
   extractExplanation (concat [fence @ js ''ts'' @ [NL] @ js ''let a = 1;'' @ [NL] @ fence,
                               fence @ js ''b'' @ fence])
     = js ''Changes applied successfully.''"
proof -
  let ?ls = "[js '' First. '', [], [], js ''  second '', []]"
  let ?text = "js ''First. '' @ [NL] @ js ''  second''"
  have r: "removeFenced proseResponse = js '' First. '' @ [NL] @ [NL] @ [NL] @ js ''  second '' @ [NL]"
    by (simp add: removeFenced.simps proseResponse_def js_def fence_def BT_def NL_def startsWith_def)
  have 1: "isLinesOf ?ls (removeFenced proseResponse)"
    unfolding r by (simp add: isLinesOf_def withNewlines_def js_def NL_def)
  have f: "filter (\<lambda>l. \<not> blankLine l) ?ls = [js '' First. '', js ''  second '']"
    by (simp add: blankLine_def js_def isWhiteSpace_def)
  have 2: "isTrimOf ?text (withNewlines (filter (\<lambda>l. \<not> blankLine l) ?ls))"
    unfolding f isTrimOf_def
    by (rule exI[of _ "js '' ''"], rule exI[of _ "js '' ''"])
      (simp add: withNewlines_def blankLine_def js_def isWhiteSpace_def NL_def)
  note t = extractExplanation_lines[of proseResponse]
  from t have "\<forall>ls text. isLinesOf ls (removeFenced proseResponse) \<longrightarrow>
      isTrimOf text (withNewlines (filter (\<lambda>l. \<not> blankLine l) ls)) \<longrightarrow>
      extractExplanation proseResponse =
        (if text = [] then js ''Changes applied successfully.'' else text)"
    by blast
  with 1 2 have "extractExplanation proseResponse =
        (if ?text = [] then js ''Changes applied successfully.'' else ?text)"
    by blast
  then have 3: "extractExplanation proseResponse = ?text" by (simp add: js_def)
  have 4: "fencedBlock (fence @ js ''ts'' @ [NL] @ js ''let a = 1;'' @ [NL] @ fence)"
    using fencedBlock_no_backtick[of "js ''ts'' @ [NL] @ js ''let a = 1;'' @ [NL]"]
    by (simp add: js_def BT_def NL_def)
  have 5: "fencedBlock (fence @ js ''b'' @ fence)"
    using fencedBlock_no_backtick[of "js ''b''"] by (simp add: js_def BT_def)
  from t have "\<forall>blocks. (\<forall>blk \<in> set blocks. fencedBlock blk) \<longrightarrow>
      extractExplanation (concat blocks) = js ''Changes applied successfully.''"
    by blast
  then have "(\<forall>blk \<in> set [fence @ js ''ts'' @ [NL] @ js ''let a = 1;'' @ [NL] @ fence,
                               fence @ js ''b'' @ fence]. fencedBlock blk) \<longrightarrow>
      extractExplanation (concat [fence @ js ''ts'' @ [NL] @ js ''let a = 1;'' @ [NL] @ fence,
                               fence @ js ''b'' @ fence]) = js ''Changes applied successfully.''"
    by (rule spec)
  with 4 5 have 6: "extractExplanation (concat [fence @ js ''ts'' @ [NL] @ js ''let a = 1;'' @ [NL] @ fence,
                               fence @ js ''b'' @ fence]) = js ''Changes applied successfully.''"
    by simp
  from 1 2 3 4 5 6 show ?thesis by blast
qed

text \<open>
  C7, as stated, fails: the pattern needs a closing fence, so a block that does not close
  is not removed and its text is part of the explanation.
\<close>

theorem extractExplanation_unclosed_counterexample:
  "extractExplanation unclosedResponse = unclosedResponse \<and>
   includesStr (extractExplanation unclosedResponse) (js ''const x = 1;'')"
  by (simp add: eval_defs unclosedResponse_def)

lemma removeFenced_no_closed_block:
  assumes "\<not> (\<exists>u w t. response = u @ fence @ w @ fence @ t)"
  shows "removeFenced response = response"
proof (cases "findFence response")
  case None
  then show ?thesis by (subst removeFenced.simps) simp
next
  case (Some a)
  obtain pre r where a: "a = (pre, r)" by (cases a)
  show ?thesis
  proof (cases "findFence r")
    case None
    then show ?thesis using Some a by (subst removeFenced.simps) simp
  next
    case (Some b)
    obtain body rest where b: "b = (body, rest)" by (cases b)
    from \<open>findFence response = Some a\<close> a have "response = pre @ fence @ r"
      using findFence_Some by blast
    moreover from Some b have "r = body @ fence @ rest" using findFence_Some by blast
    ultimately have "response = pre @ fence @ body @ fence @ rest" by simp
    with assms show ?thesis by blast
  qed
qed

text \<open>
  C7, amended. The removal is non-greedy and bounded by the next closing fence only: a
  block from the first fence of the response to the first fence after it is removed, and
  the removal goes on behind it. A response that holds no fence followed later by a second
  fence loses nothing: the opening fence of a block that does not close and the text after
  it stay in the explanation, which is then the response with its blank lines dropped and
  its ends trimmed.
\<close>

theorem extractExplanation_closed_blocks_only:
  "(findFence response = Some (pre, r) \<longrightarrow> findFence r = Some (body, rest) \<longrightarrow>
      replaceAll False fencedBlockRegex [] 0 response =
        pre @ replaceAll False fencedBlockRegex [] 0 rest) \<and>
   (\<not> (\<exists>u w t. response = u @ fence @ w @ fence @ t) \<longrightarrow>
      replaceAll False fencedBlockRegex [] 0 response = response \<and>
      extractExplanation response =
        (let text = trim (join (filter (\<lambda>line. trim line \<noteq> []) (split response NL)) [NL])
         in if text = [] then js ''Changes applied successfully.'' else text))"
proof (intro conjI impI)
  assume "findFence response = Some (pre, r)" "findFence r = Some (body, rest)"
  then have "removeFenced response = pre @ removeFenced rest"
    by (subst removeFenced.simps) simp
  then show "replaceAll False fencedBlockRegex [] 0 response =
        pre @ replaceAll False fencedBlockRegex [] 0 rest"
    by (simp add: replaceAll_fenced)
next
  assume n: "\<not> (\<exists>u w t. response = u @ fence @ w @ fence @ t)"
  then show "replaceAll False fencedBlockRegex [] 0 response = response"
    by (simp add: replaceAll_fenced removeFenced_no_closed_block)
  from n show "extractExplanation response =
        (let text = trim (join (filter (\<lambda>line. trim line \<noteq> []) (split response NL)) [NL])
         in if text = [] then js ''Changes applied successfully.'' else text)"
    by (simp add: extractExplanation_removeFenced removeFenced_no_closed_block Let_def)
qed

lemma count_fence: "count_list fence BT = 3"
  by (simp add: fence_def)

theorem extractExplanation_closed_blocks_only_witness:
  "findFence (js ''A'' @ fence @ js ''b'' @ fence @ js ''C'') = Some (js ''A'', js ''b'' @ fence @ js ''C'') \<and>
   findFence (js ''b'' @ fence @ js ''C'') = Some (js ''b'', js ''C'') \<and>
   replaceAll False fencedBlockRegex [] 0 (js ''A'' @ fence @ js ''b'' @ fence @ js ''C'') = js ''AC'' \<and>
   \<not> (\<exists>u w t. unclosedResponse = u @ fence @ w @ fence @ t) \<and>
   replaceAll False fencedBlockRegex [] 0 unclosedResponse = unclosedResponse \<and>
   extractExplanation unclosedResponse = unclosedResponse"
proof -
  let ?s = "js ''A'' @ fence @ js ''b'' @ fence @ js ''C''"
  have f1: "findFence ?s = Some (js ''A'', js ''b'' @ fence @ js ''C'')"
    by (simp add: js_def fence_def BT_def startsWith_def)
  have f2: "findFence (js ''b'' @ fence @ js ''C'') = Some (js ''b'', js ''C'')"
    by (simp add: js_def fence_def BT_def startsWith_def)
  have f3: "findFence (js ''C'') = None"
    by (simp add: js_def fence_def BT_def startsWith_def)
  have nc: "\<not> (\<exists>u w t. unclosedResponse = u @ fence @ w @ fence @ t)"
  proof
    assume "\<exists>u w t. unclosedResponse = u @ fence @ w @ fence @ t"
    then obtain u w t where "unclosedResponse = u @ fence @ w @ fence @ t" by blast
    then have "count_list unclosedResponse BT = count_list (u @ fence @ w @ fence @ t) BT" by simp
    moreover have "count_list unclosedResponse BT = 3"
      by (simp add: unclosedResponse_def js_def fence_def BT_def NL_def)
    ultimately show False by (simp add: count_fence)
  qed
  note t1 = extractExplanation_closed_blocks_only[of ?s "js ''A''" "js ''b'' @ fence @ js ''C''" "js ''b''" "js ''C''"]
  note t2 = extractExplanation_closed_blocks_only[of unclosedResponse "[]" "[]" "[]" "[]"]
  from t1 f1 f2 have "replaceAll False fencedBlockRegex [] 0 ?s =
      js ''A'' @ replaceAll False fencedBlockRegex [] 0 (js ''C'')" by blast
  moreover have "replaceAll False fencedBlockRegex [] 0 (js ''C'') = js ''C''"
    by (simp add: replaceAll_fenced) (subst removeFenced.simps, simp add: f3)
  ultimately have r1: "replaceAll False fencedBlockRegex [] 0 ?s = js ''AC''"
    by (simp add: js_def)
  from t2 nc have r2: "replaceAll False fencedBlockRegex [] 0 unclosedResponse = unclosedResponse"
    and r3: "extractExplanation unclosedResponse =
        (let text = trim (join (filter (\<lambda>line. trim line \<noteq> []) (split unclosedResponse NL)) [NL])
         in if text = [] then js ''Changes applied successfully.'' else text)"
    by blast+
  have "(let text = trim (join (filter (\<lambda>line. trim line \<noteq> []) (split unclosedResponse NL)) [NL])
         in if text = [] then js ''Changes applied successfully.'' else text) = unclosedResponse"
    by (simp add: eval_defs unclosedResponse_def)
  with r3 have r3': "extractExplanation unclosedResponse = unclosedResponse" by simp
  show ?thesis using f1 f2 r1 nc r2 r3' by blast
qed

end
